theory Spec2Isabelle
  imports Complex_Main "HOL-Library.Word"
begin

section \<open>DepthCut: depth ranges, depth extraction, masking and the job driver\<close>

text \<open>
  The development embeds \<^verbatim>\<open>js/depth-cutter.js\<close> (class \<^verbatim>\<open>BrowserDepthCutter\<close>) and
  \<^verbatim>\<open>js/image-processor.js\<close> (class \<^verbatim>\<open>BrowserImageProcessor\<close>).

  A layer count is an integer (the caller passes the result of \<^verbatim>\<open>parseInt\<close>); the loop
  counter is a natural number. Console output and the progress callback change no state
  and are left out.
\<close>

subsection \<open>JavaScript numbers\<close>

text \<open>
  A JavaScript number is an IEEE-754 double, and every arithmetic operation returns the
  double nearest to the exact result, a tie going to the even significand. A double is
  modelled by the real number it denotes, and \<open>fl\<close> is that rounding: \<open>expo x\<close> is the binary
  exponent of \<open>x\<close> (\<open>2 ^ expo x \<le> x < 2 ^ (expo x + 1)\<close>), \<open>ulp x\<close> the spacing of the doubles
  around \<open>x\<close> (53 significant bits), \<open>rne\<close> rounds to the nearest integer, ties to even. The
  exponent range is taken as unbounded: the program's numbers (depths, range bounds, byte
  counts) are far from overflow and underflow. \<^verbatim>\<open>NaN\<close> and the infinities are not
  numbers of the model.
\<close>

definition rne :: "real \<Rightarrow> int" where
  "rne y = (let f = \<lfloor>y\<rfloor>
            in if y - of_int f < 1 / 2 then f
               else if 1 / 2 < y - of_int f then f + 1
               else if even f then f else f + 1)"

function expo :: "real \<Rightarrow> int" where
  "expo x = (if x \<le> 0 then 0
             else if 2 \<le> x then expo (x / 2) + 1
             else if x < 1 then expo (x * 2) - 1
             else 0)"
  by pat_completeness auto
termination
proof (relation "measure (\<lambda>x. nat \<bar>\<lfloor>log 2 x\<rfloor>\<bar>)")
  show "wf (measure (\<lambda>x. nat \<bar>\<lfloor>log 2 x\<rfloor>\<bar>))" by simp
next
  fix x :: real
  assume "\<not> x \<le> 0" "2 \<le> x"
  then have "log 2 (x / 2) = log 2 x - 1" by (simp add: log_divide)
  then have "\<lfloor>log 2 (x / 2)\<rfloor> = \<lfloor>log 2 x\<rfloor> - 1" by simp
  moreover have "1 \<le> log 2 x" using \<open>2 \<le> x\<close> by (simp add: le_log_iff)
  then have "1 \<le> \<lfloor>log 2 x\<rfloor>" by simp
  ultimately have "nat \<bar>\<lfloor>log 2 (x / 2)\<rfloor>\<bar> < nat \<bar>\<lfloor>log 2 x\<rfloor>\<bar>" by linarith
  then show "(x / 2, x) \<in> measure (\<lambda>x. nat \<bar>\<lfloor>log 2 x\<rfloor>\<bar>)" by (simp only: in_measure)
next
  fix x :: real
  assume "\<not> x \<le> 0" "\<not> 2 \<le> x" "x < 1"
  then have "log 2 (x * 2) = log 2 x + 1" by (simp add: log_mult)
  then have "\<lfloor>log 2 (x * 2)\<rfloor> = \<lfloor>log 2 x\<rfloor> + 1" by simp
  moreover have "log 2 x < 0" using \<open>x < 1\<close> \<open>\<not> x \<le> 0\<close> by simp
  then have "\<lfloor>log 2 x\<rfloor> < 0" by (simp add: floor_less_iff)
  ultimately have "nat \<bar>\<lfloor>log 2 (x * 2)\<rfloor>\<bar> < nat \<bar>\<lfloor>log 2 x\<rfloor>\<bar>" by linarith
  then show "(x * 2, x) \<in> measure (\<lambda>x. nat \<bar>\<lfloor>log 2 x\<rfloor>\<bar>)" by (simp only: in_measure)
qed

declare expo.simps [simp del]

definition ulp :: "real \<Rightarrow> real" where
  "ulp x = 2 powi (expo x - 52)"

definition fl :: "real \<Rightarrow> real" where
  "fl x = (if x = 0 then 0
           else if x < 0 then - (of_int (rne (- x / ulp (- x))) * ulp (- x))
           else of_int (rne (x / ulp x)) * ulp x)"

text \<open>
  The error of one rounding of a number up to \<open>1024\<close> in size, as a name for the
  estimates below.
\<close>

definition eps :: real where
  "eps = 1 / 2 ^ 43"

subsection \<open>Math.round\<close>

text \<open>
  \<^verbatim>\<open>Math.round(x)\<close>: the nearest integer, a tie going towards plus infinity. It is exact
  on a double.
\<close>

definition js_round :: "real \<Rightarrow> int" where
  "js_round x = \<lfloor>x + 1 / 2\<rfloor>"

text \<open>
  \<^verbatim>\<open>Math.round(x * 10) / 10\<close>, the one-decimal rounding used four times per bin: the
  product and the quotient are each rounded to a double.
\<close>

definition round1 :: "real \<Rightarrow> real" where
  "round1 x = fl (of_int (js_round (fl (x * 10))) / 10)"

subsection \<open>generateDepthRanges\<close>

record depth_range =
  range_min :: real
  range_max :: real

text \<open>
  The body of the \<^verbatim>\<open>for\<close> loop of \<^verbatim>\<open>generateDepthRanges\<close> at counter \<open>i\<close>, every operation
  rounded as the double arithmetic rounds it (\<^verbatim>\<open>stepSize * i * 10\<close> is two products).
  The loop runs only for \<open>i < layerCount\<close>, so the division \<open>100 / layerCount\<close> is by a
  positive number wherever the body runs.
\<close>

definition range_of_bin :: "int \<Rightarrow> real \<Rightarrow> nat \<Rightarrow> depth_range" where
  "range_of_bin layerCount depthOverlap i =
     (let stepSize = fl (100 / of_int layerCount);
          minDepth0 = round1 (fl (stepSize * of_nat i));
          maxDepth0 = round1 (fl (stepSize * (of_nat i + 1)));
          maxDepth1 = (if int i < layerCount - 1 then min 100 (fl (maxDepth0 + depthOverlap))
                       else maxDepth0);
          minDepth = round1 minDepth0;
          maxDepth = round1 maxDepth1
      in \<lparr>range_min = minDepth, range_max = maxDepth\<rparr>)"

text \<open>The loop itself: \<open>ranges\<close> is the array built so far, \<open>i\<close> the counter.\<close>

function ranges_loop :: "int \<Rightarrow> real \<Rightarrow> nat \<Rightarrow> depth_range list \<Rightarrow> depth_range list" where
  "ranges_loop layerCount depthOverlap i ranges =
     (if int i < layerCount
      then ranges_loop layerCount depthOverlap (Suc i)
             (ranges @ [range_of_bin layerCount depthOverlap i])
      else ranges)"
  by pat_completeness auto
termination
  by (relation "measure (\<lambda>(layerCount, depthOverlap, i, ranges). nat layerCount - i)") auto

declare ranges_loop.simps [simp del]

definition generateDepthRanges :: "int \<Rightarrow> real \<Rightarrow> depth_range list" where
  "generateDepthRanges layerCount depthOverlap = ranges_loop layerCount depthOverlap 0 []"

text \<open>
  For stating what the loop computes: the integer \<^verbatim>\<open>Math.round(stepSize * i * 10)\<close>, the
  number of tenths at the lower edge of bin \<open>i\<close>, and the boundary itself, that integer
  divided by ten.
\<close>

definition tenths :: "int \<Rightarrow> nat \<Rightarrow> int" where
  "tenths layerCount i = js_round (fl (fl (fl (100 / of_int layerCount) * of_nat i) * 10))"

definition boundary :: "int \<Rightarrow> nat \<Rightarrow> real" where
  "boundary layerCount i = fl (of_int (tenths layerCount i) / 10)"

subsection \<open>Images and canvases\<close>

text \<open>
  A decoded raster image, or a canvas: its dimensions and its pixel bytes in the layout of
  \<^verbatim>\<open>ImageData.data\<close> (a \<^verbatim>\<open>Uint8ClampedArray\<close>): four bytes per pixel, red, green, blue, alpha,
  row by row, the pixel \<open>(x, y)\<close> starting at byte \<open>(y * width + x) * 4\<close>. For a canvas the
  bytes are those \<^verbatim>\<open>getImageData\<close> reads from it.
\<close>

record image =
  width :: nat
  height :: nat
  data :: "8 word list"

text \<open>
  A canvas stores its pixels with the colour premultiplied by alpha. Byte \<open>j\<close> read back
  from a canvas whose pixels were set from the buffer \<open>dat\<close>: the alpha byte is kept; the
  colour bytes of a fully transparent pixel are lost and read \<open>0\<close>; those of an opaque pixel
  are kept; those of a partly transparent pixel come back as the browser rounds them, the
  parameter \<open>unpremultiply\<close> (colour byte and alpha byte to colour byte). A byte the
  buffer does not have is transparent black, the state of a fresh canvas.
\<close>

definition canvas_byte :: "(8 word \<Rightarrow> 8 word \<Rightarrow> 8 word) \<Rightarrow> 8 word list \<Rightarrow> nat \<Rightarrow> 8 word" where
  "canvas_byte unpremultiply dat j =
     (let a = j div 4 * 4 + 3
      in if j < length dat \<and> a < length dat
         then (if j mod 4 = 3 then dat ! j
               else if dat ! a = 0 then 0
               else if dat ! a = 255 then dat ! j
               else unpremultiply (dat ! j) (dat ! a))
         else 0)"

text \<open>A canvas of the given size whose pixels were set from a buffer.\<close>

definition paint :: "(8 word \<Rightarrow> 8 word \<Rightarrow> 8 word) \<Rightarrow> nat \<Rightarrow> nat \<Rightarrow> 8 word list \<Rightarrow> image" where
  "paint unpremultiply w h dat =
     \<lparr>width = w, height = h, data = map (canvas_byte unpremultiply dat) [0..<4 * w * h]\<rparr>"

text \<open>
  \<^verbatim>\<open>createCanvas(img.width, img.height)\<close> followed by \<^verbatim>\<open>ctx.drawImage(img, 0, 0)\<close>;
  \<^verbatim>\<open>ctx.getImageData(0, 0, width, height)\<close>, always \<open>4 * width * height\<close> bytes; and
  \<^verbatim>\<open>ctx.putImageData(imageData, 0, 0)\<close> with a buffer of the canvas's size.
\<close>

definition drawImage :: "(8 word \<Rightarrow> 8 word \<Rightarrow> 8 word) \<Rightarrow> image \<Rightarrow> image" where
  "drawImage unpremultiply img = paint unpremultiply (width img) (height img) (data img)"

definition getImageData :: "image \<Rightarrow> 8 word list" where
  "getImageData cv =
     map (\<lambda>j. if j < length (data cv) then data cv ! j else 0)
       [0..<4 * width cv * height cv]"

definition putImageData :: "(8 word \<Rightarrow> 8 word \<Rightarrow> 8 word) \<Rightarrow> image \<Rightarrow> 8 word list \<Rightarrow> image" where
  "putImageData unpremultiply cv dat = paint unpremultiply (width cv) (height cv) dat"

definition checkSizeMatch :: "image \<Rightarrow> image \<Rightarrow> bool" where
  "checkSizeMatch img1 img2 \<longleftrightarrow> width img1 = width img2 \<and> height img1 = height img2"

text \<open>
  \<^verbatim>\<open>resizeImage\<close> draws the image scaled onto a canvas of the target size. The smoothing
  filter is the browser's, not the program's: it is the parameter \<open>smooth\<close>, giving the byte
  read from the target canvas at each index.
\<close>

definition resizeImage ::
    "(image \<Rightarrow> nat \<Rightarrow> nat \<Rightarrow> nat \<Rightarrow> 8 word) \<Rightarrow> image \<Rightarrow> nat \<Rightarrow> nat \<Rightarrow> image" where
  "resizeImage smooth img targetWidth targetHeight =
     \<lparr>width = targetWidth, height = targetHeight,
      data = map (smooth img targetWidth targetHeight) [0..<4 * targetWidth * targetHeight]\<rparr>"

definition autoAdjustDepthImage ::
    "(8 word \<Rightarrow> 8 word \<Rightarrow> 8 word) \<Rightarrow> (image \<Rightarrow> nat \<Rightarrow> nat \<Rightarrow> nat \<Rightarrow> 8 word) \<Rightarrow>
     image \<Rightarrow> image \<Rightarrow> image" where
  "autoAdjustDepthImage unpremultiply smooth originalImg depthImg =
     (if checkSizeMatch originalImg depthImg
      then drawImage unpremultiply depthImg
      else resizeImage smooth depthImg (width originalImg) (height originalImg))"

subsection \<open>convertDepthImageToData\<close>

text \<open>
  The depth of one pixel from its red byte: \<^verbatim>\<open>(gray / 255) * 100\<close>, the quotient and the
  product each rounded to a double.
\<close>

definition depth_of_gray :: "8 word \<Rightarrow> real" where
  "depth_of_gray gray = fl (fl (real (unat gray) / 255) * 100)"

text \<open>
  The inner loop over \<open>x\<close> and the outer loop over \<open>y\<close>. The buffer \<open>dat\<close> comes from
  \<^verbatim>\<open>getImageData\<close> and has \<open>4 * width * height\<close> bytes, so \<open>dat ! index\<close> is read in range
  for every \<open>y < height\<close> and \<open>x < width\<close>.
\<close>

function depth_row_loop :: "8 word list \<Rightarrow> nat \<Rightarrow> nat \<Rightarrow> nat \<Rightarrow> real list \<Rightarrow> real list" where
  "depth_row_loop dat w y x row =
     (if x < w
      then (let index = (y * w + x) * 4;
                gray = dat ! index;
                depth = depth_of_gray gray
            in depth_row_loop dat w y (Suc x) (row @ [depth]))
      else row)"
  by pat_completeness auto
termination
  by (relation "measure (\<lambda>(dat, w, y, x, row). w - x)") auto

declare depth_row_loop.simps [simp del]

function depth_rows_loop ::
    "8 word list \<Rightarrow> nat \<Rightarrow> nat \<Rightarrow> nat \<Rightarrow> real list list \<Rightarrow> real list list" where
  "depth_rows_loop dat w h y depthData =
     (if y < h
      then depth_rows_loop dat w h (Suc y) (depthData @ [depth_row_loop dat w y 0 []])
      else depthData)"
  by pat_completeness auto
termination
  by (relation "measure (\<lambda>(dat, w, h, y, depthData). h - y)") auto

declare depth_rows_loop.simps [simp del]

text \<open>The argument is a canvas (the one \<^verbatim>\<open>autoAdjustDepthImage\<close> returns).\<close>

definition convertDepthImageToData :: "image \<Rightarrow> real list list" where
  "convertDepthImageToData cv =
     depth_rows_loop (getImageData cv) (width cv) (height cv) 0 []"

subsection \<open>cutByDepthRange\<close>

datatype error =
    LoadError
  | BlobError
  | TypeError
  | DepthCutFailed error

text \<open>The test of the \<^verbatim>\<open>if\<close> in \<^verbatim>\<open>cutByDepthRange\<close>: the pixel is made transparent.\<close>

definition masked :: "real \<Rightarrow> real \<Rightarrow> real \<Rightarrow> bool" where
  "masked minDepth maxDepth depth \<longleftrightarrow> depth < minDepth \<or> depth \<ge> maxDepth"

text \<open>
  One pixel of the inner loop. \<^verbatim>\<open>depthData[y]\<close> beyond the array is \<^verbatim>\<open>undefined\<close>
  and indexing it raises a TypeError (the loop \<open>cut_cols\<close> below tests
  \<open>y < length depthData\<close>); \<^verbatim>\<open>depthData[y][x]\<close> beyond the row is \<^verbatim>\<open>undefined\<close>, both
  comparisons with it are false and nothing is written. A write beyond a typed array is
  ignored, as is \<open>xs[i := v]\<close> beyond a list.
\<close>

definition cut_pixel ::
    "real list \<Rightarrow> real \<Rightarrow> real \<Rightarrow> nat \<Rightarrow> nat \<Rightarrow> nat \<Rightarrow> 8 word list \<Rightarrow> 8 word list" where
  "cut_pixel row minDepth maxDepth w y x dat =
     (let index = (y * w + x) * 4
      in if x < length row \<and> masked minDepth maxDepth (row ! x)
         then dat[index + 3 := 0]
         else dat)"

function cut_cols ::
    "real list list \<Rightarrow> real \<Rightarrow> real \<Rightarrow> nat \<Rightarrow> nat \<Rightarrow> nat \<Rightarrow> 8 word list \<Rightarrow> error + 8 word list" where
  "cut_cols depthData minDepth maxDepth w y x dat =
     (if x < w
      then (if y < length depthData
            then cut_cols depthData minDepth maxDepth w y (Suc x)
                   (cut_pixel (depthData ! y) minDepth maxDepth w y x dat)
            else Inl TypeError)
      else Inr dat)"
  by pat_completeness auto
termination
  by (relation "measure (\<lambda>(depthData, minDepth, maxDepth, w, y, x, dat). w - x)") auto

declare cut_cols.simps [simp del]

function cut_rows ::
    "real list list \<Rightarrow> real \<Rightarrow> real \<Rightarrow> nat \<Rightarrow> nat \<Rightarrow> nat \<Rightarrow> 8 word list \<Rightarrow> error + 8 word list" where
  "cut_rows depthData minDepth maxDepth w h y dat =
     (if y < h
      then (case cut_cols depthData minDepth maxDepth w y 0 dat of
              Inl e \<Rightarrow> Inl e
            | Inr dat' \<Rightarrow> cut_rows depthData minDepth maxDepth w h (Suc y) dat')
      else Inr dat)"
  by pat_completeness auto
termination
  by (relation "measure (\<lambda>(depthData, minDepth, maxDepth, w, h, y, dat). h - y)") auto

declare cut_rows.simps [simp del]

text \<open>
  The function draws the image on a fresh canvas, reads the canvas's buffer, runs the two
  loops on the buffer, puts the buffer back and returns the canvas.
\<close>

definition cutByDepthRange ::
    "(8 word \<Rightarrow> 8 word \<Rightarrow> 8 word) \<Rightarrow> image \<Rightarrow> real list list \<Rightarrow> real \<Rightarrow> real \<Rightarrow> error + image" where
  "cutByDepthRange unpremultiply originalImg depthData minDepth maxDepth =
     (let cv = drawImage unpremultiply originalImg;
          dat = getImageData cv
      in case cut_rows depthData minDepth maxDepth (width cv) (height cv) 0 dat of
           Inl e \<Rightarrow> Inl e
         | Inr dat' \<Rightarrow> Inr (putImageData unpremultiply cv dat'))"

text \<open>
  For stating what the loops do: the test of \<^verbatim>\<open>cutByDepthRange\<close> succeeds at the pixel
  \<open>(x, y)\<close>; the byte \<open>j\<close> is the alpha byte of such a pixel in row \<open>y\<close>, column \<open>x0\<close> or later;
  the byte \<open>j\<close> is the alpha byte of such a pixel in row \<open>y0\<close> or later.
\<close>

definition masked_at :: "real list list \<Rightarrow> real \<Rightarrow> real \<Rightarrow> nat \<Rightarrow> nat \<Rightarrow> bool" where
  "masked_at depthData minDepth maxDepth y x \<longleftrightarrow>
     x < length (depthData ! y) \<and> masked minDepth maxDepth (depthData ! y ! x)"

definition zeroed_in_row ::
    "real list list \<Rightarrow> real \<Rightarrow> real \<Rightarrow> nat \<Rightarrow> nat \<Rightarrow> nat \<Rightarrow> nat \<Rightarrow> bool" where
  "zeroed_in_row depthData minDepth maxDepth w y x0 j \<longleftrightarrow>
     (\<exists>x\<in>{x0..<w}. j = (y * w + x) * 4 + 3 \<and> masked_at depthData minDepth maxDepth y x)"

definition zeroed_in_rows ::
    "real list list \<Rightarrow> real \<Rightarrow> real \<Rightarrow> nat \<Rightarrow> nat \<Rightarrow> nat \<Rightarrow> nat \<Rightarrow> bool" where
  "zeroed_in_rows depthData minDepth maxDepth w h y0 j \<longleftrightarrow>
     (\<exists>y\<in>{y0..<h}. zeroed_in_row depthData minDepth maxDepth w y 0 j)"

subsection \<open>BrowserDepthCutter\<close>

text \<open>
  One entry of \<^verbatim>\<open>this.results\<close>. The encodings of the canvas (\<^verbatim>\<open>dataUrl\<close>, \<^verbatim>\<open>blob\<close>,
  \<^verbatim>\<open>previewDataUrl\<close>) are the browser's; the blob is kept by its size. The file name is
  the zero-padded index \<open>layer - 1\<close> and the label \<^verbatim>\<open>depthRange\<close> the two bounds of the
  range, kept here as the range itself.
\<close>

record layer_result =
  layer :: nat
  depthRange :: depth_range
  canvas :: image
  blob_size :: nat

record cutter =
  layerCount :: int
  depthOverlap :: real
  borderWidth :: int
  depthRanges :: "depth_range list"
  results :: "layer_result list"

text \<open>The constructor. It validates nothing.\<close>

definition BrowserDepthCutter :: "int \<Rightarrow> real \<Rightarrow> int \<Rightarrow> cutter" where
  "BrowserDepthCutter n ov bw =
     \<lparr>layerCount = n, depthOverlap = ov, borderWidth = bw,
      depthRanges = generateDepthRanges n ov, results = []\<rparr>"

text \<open>
  What the browser decides during one run of \<^verbatim>\<open>process\<close>: whether each of the two images
  loads (\<^verbatim>\<open>loadImageFromFile\<close> and \<^verbatim>\<open>loadImageFromDataUrl\<close> reject on failure), how its
  canvases round the colour of a partly transparent pixel, the smoothing filter of a
  scaled \<^verbatim>\<open>drawImage\<close>, and for the canvas of each layer index whether
  \<^verbatim>\<open>canvas.toBlob\<close> yields a blob (its size) or \<^verbatim>\<open>null\<close>, on which \<^verbatim>\<open>canvasToBlob\<close>
  rejects.
\<close>

record browser =
  loadOriginal :: "error + image"
  loadDepth :: "error + image"
  unpremul :: "8 word \<Rightarrow> 8 word \<Rightarrow> 8 word"
  smoothing :: "image \<Rightarrow> nat \<Rightarrow> nat \<Rightarrow> nat \<Rightarrow> 8 word"
  toBlob :: "nat \<Rightarrow> image \<Rightarrow> nat option"

text \<open>
  \<^verbatim>\<open>this.imageProcessor.addBorder(resultCanvas, this.borderWidth)\<close>: the class
  \<^verbatim>\<open>BrowserImageProcessor\<close> defines no method of that name, nor does any other file
  add one. The property read yields \<^verbatim>\<open>undefined\<close> and the call raises a TypeError.
\<close>

definition addBorder :: "image \<Rightarrow> int \<Rightarrow> error + image" where
  "addBorder resultCanvas bw = Inl TypeError"

text \<open>
  The loop over the ranges in \<^verbatim>\<open>process\<close>, with the cutter (whose \<open>results\<close> grow) as
  state. A throw leaves the loop with the cutter as it is at that moment.
\<close>

function layers_loop ::
    "browser \<Rightarrow> image \<Rightarrow> real list list \<Rightarrow> nat \<Rightarrow> cutter \<Rightarrow> (error + layer_result list) \<times> cutter" where
  "layers_loop env originalImg depthData i c =
     (if i < length (depthRanges c)
      then (let range = depthRanges c ! i
            in case cutByDepthRange (unpremul env) originalImg depthData
                      (range_min range) (range_max range) of
                 Inl e \<Rightarrow> (Inl e, c)
               | Inr resultCanvas0 \<Rightarrow>
                  (case (if borderWidth c > 0 then addBorder resultCanvas0 (borderWidth c)
                         else Inr resultCanvas0) of
                     Inl e \<Rightarrow> (Inl e, c)
                   | Inr resultCanvas \<Rightarrow>
                      (case toBlob env i resultCanvas of
                         None \<Rightarrow> (Inl BlobError, c)
                       | Some sz \<Rightarrow>
                          layers_loop env originalImg depthData (Suc i)
                            (c\<lparr>results := results c @
                                 [\<lparr>layer = i + 1, depthRange = range,
                                   canvas = resultCanvas, blob_size = sz\<rparr>]\<rparr>))))
      else (Inr (results c), c))"
  by pat_completeness auto
termination
  by (relation "measure (\<lambda>(env, originalImg, depthData, i, c). length (depthRanges c) - i)") auto

declare layers_loop.simps [simp del]

text \<open>
  \<^verbatim>\<open>process\<close>: the value returned or the error thrown, and the cutter afterwards. The
  \<^verbatim>\<open>catch\<close> wraps whatever was thrown into one new error and does nothing else.
\<close>

definition process :: "browser \<Rightarrow> cutter \<Rightarrow> (error + layer_result list) \<times> cutter" where
  "process env c =
     (case loadOriginal env of
        Inl e \<Rightarrow> (Inl (DepthCutFailed e), c)
      | Inr originalImg \<Rightarrow>
         (case loadDepth env of
            Inl e \<Rightarrow> (Inl (DepthCutFailed e), c)
          | Inr depthImg \<Rightarrow>
             (let adjustedDepthCanvas =
                    autoAdjustDepthImage (unpremul env) (smoothing env) originalImg depthImg;
                  depthData = convertDepthImageToData adjustedDepthCanvas
              in case layers_loop env originalImg depthData 0 (c\<lparr>results := []\<rparr>) of
                   (Inl e, c') \<Rightarrow> (Inl (DepthCutFailed e), c')
                 | (Inr rs, c') \<Rightarrow> (Inr rs, c'))))"

definition getAllResults :: "cutter \<Rightarrow> layer_result list" where
  "getAllResults c = results c"

record stats =
  totalLayers :: nat
  totalSize :: real
  avgSize :: int
  totalSizeMB :: real
  statRanges :: "depth_range list"

text \<open>\<^verbatim>\<open>getStats\<close>; the sum is the \<^verbatim>\<open>reduce\<close> over the results, each addition rounded.\<close>

definition getStats :: "cutter \<Rightarrow> stats option" where
  "getStats c =
     (if length (results c) = 0 then None
      else (let total = foldl (\<lambda>sum result. fl (sum + real (blob_size result))) 0 (results c);
                avg = fl (total / real (length (results c)))
            in Some \<lparr>totalLayers = length (results c), totalSize = total,
                     avgSize = js_round avg,
                     totalSizeMB =
                       fl (of_int (js_round (fl (fl (fl (total / 1024) / 1024) * 100))) / 100),
                     statRanges = depthRanges c\<rparr>))"

subsection \<open>Rounding to the nearest integer\<close>

lemma rne_of_int [simp]: "rne (of_int k) = k"
  by (simp add: rne_def)

lemma rne_close: "\<bar>of_int (rne y) - y\<bar> \<le> 1 / 2"
proof -
  have "of_int \<lfloor>y\<rfloor> \<le> y" "y < of_int \<lfloor>y\<rfloor> + 1" by linarith+
  then show ?thesis by (auto simp: rne_def Let_def)
qed

lemma rne_bounds: "\<lfloor>y\<rfloor> \<le> rne y \<and> rne y \<le> \<lfloor>y\<rfloor> + 1"
  by (simp add: rne_def Let_def)

lemma rne_floor_iff: "rne y = \<lfloor>y\<rfloor> \<or> (rne y = \<lfloor>y\<rfloor> + 1 \<and> 1 / 2 \<le> y - of_int \<lfloor>y\<rfloor>)"
  by (auto simp: rne_def Let_def)

lemma rne_mono: "x \<le> y \<Longrightarrow> rne x \<le> rne y"
proof -
  assume xy: "x \<le> y"
  then have fl: "\<lfloor>x\<rfloor> \<le> \<lfloor>y\<rfloor>" by (rule floor_mono)
  show ?thesis
  proof (cases "\<lfloor>x\<rfloor> = \<lfloor>y\<rfloor>")
    case True
    with xy have "x - of_int \<lfloor>x\<rfloor> \<le> y - of_int \<lfloor>y\<rfloor>" by simp
    with True show ?thesis by (auto simp: rne_def Let_def)
  next
    case False
    with fl have "\<lfloor>x\<rfloor> + 1 \<le> \<lfloor>y\<rfloor>" by simp
    with rne_bounds [of x] rne_bounds [of y] show ?thesis by linarith
  qed
qed

subsection \<open>The binary exponent\<close>

lemma expo_bounds: "0 < x \<Longrightarrow> 2 powi expo x \<le> x \<and> x < 2 powi (expo x + 1)"
proof (induction x rule: expo.induct)
  case (1 x)
  show ?case
  proof (cases "2 \<le> x")
    case True
    then have e: "expo x = expo (x / 2) + 1" using "1.prems" by (subst expo.simps) simp
    from "1.IH"(1) True "1.prems" have "2 powi expo (x / 2) \<le> x / 2 \<and> x / 2 < 2 powi (expo (x / 2) + 1)"
      by simp
    then show ?thesis unfolding e by (simp add: power_int_add)
  next
    case False
    show ?thesis
    proof (cases "x < 1")
      case True
      then have e: "expo x = expo (x * 2) - 1" using "1.prems" False by (subst expo.simps) simp
      from "1.IH"(2) True False "1.prems"
      have "2 powi expo (x * 2) \<le> x * 2 \<and> x * 2 < 2 powi (expo (x * 2) + 1)"
        by simp
      then show ?thesis unfolding e by (simp add: power_int_diff power_int_add)
    next
      case F2: False
      then have "expo x = 0" using "1.prems" False by (subst expo.simps) simp
      with False F2 show ?thesis by simp
    qed
  qed
qed

lemma pow2_less_imp: "(2::real) powi a < 2 powi b \<Longrightarrow> a < b"
proof (rule ccontr)
  assume lt: "(2::real) powi a < 2 powi b" and "\<not> a < b"
  then have "b \<le> a" by simp
  then have "(2::real) powi b \<le> 2 powi a" by (rule power_int_increasing) simp
  with lt show False by simp
qed

lemma expo_unique:
  assumes "2 powi k \<le> x" "x < 2 powi (k + 1)"
  shows "expo x = k"
proof -
  have pos: "0 < x" using assms(1) zero_less_power_int [of "2::real" k] by linarith
  from expo_bounds [OF pos] have b: "2 powi expo x \<le> x" "x < 2 powi (expo x + 1)" by simp_all
  have "2 powi k < (2::real) powi (expo x + 1)" using assms(1) b(2) by linarith
  then have "k < expo x + 1" by (rule pow2_less_imp)
  moreover have "2 powi expo x < (2::real) powi (k + 1)" using assms(2) b(1) by linarith
  then have "expo x < k + 1" by (rule pow2_less_imp)
  ultimately show ?thesis by simp
qed

subsection \<open>Rounding to a double\<close>

lemma ulp_pos [simp]: "0 < ulp x"
  by (simp add: ulp_def)

lemma ulp_nonneg [simp]: "0 \<le> ulp x"
  by (simp add: ulp_def)

lemma ulp_neq_0 [simp]: "ulp x \<noteq> 0"
  by (simp add: ulp_def)

lemma fl_0 [simp]: "fl 0 = 0"
  by (simp add: fl_def)

lemma fl_pos_eq: "0 < x \<Longrightarrow> fl x = of_int (rne (x / ulp x)) * ulp x"
  by (simp add: fl_def)

lemma fl_minus: "fl (- x) = - fl x"
  by (simp add: fl_def)

lemma pow2_expo: "2 powi expo x = 2 ^ 52 * ulp x" "2 powi (expo x + 1) = 2 ^ 53 * ulp x"
proof -
  have "(2::real) powi expo x = 2 powi (52 + (expo x - 52))" by simp
  also have "\<dots> = 2 powi 52 * 2 powi (expo x - 52)" by (rule power_int_add) simp
  finally show "2 powi expo x = 2 ^ 52 * ulp x" by (simp add: ulp_def)
  have "expo x + 1 = 53 + (expo x - 52)" by simp
  then have "(2::real) powi (expo x + 1) = 2 powi (53 + (expo x - 52))" by (rule arg_cong)
  also have "\<dots> = 2 powi 53 * 2 powi (expo x - 52)" by (rule power_int_add) simp
  finally show "2 powi (expo x + 1) = 2 ^ 53 * ulp x" by (simp add: ulp_def)
qed

lemma scaled_bounds:
  assumes "0 < x"
  shows "2 ^ 52 \<le> x / ulp x" "x / ulp x < 2 ^ 53"
proof -
  from expo_bounds [OF assms] have "2 ^ 52 * ulp x \<le> x" "x < 2 ^ 53 * ulp x"
    by (simp_all add: pow2_expo)
  then show "2 ^ 52 \<le> x / ulp x" "x / ulp x < 2 ^ 53"
    by (simp_all add: pos_le_divide_eq pos_divide_less_eq)
qed

lemma rne_scaled_bounds:
  assumes "0 < x"
  shows "2 ^ 52 \<le> rne (x / ulp x)" "rne (x / ulp x) \<le> 2 ^ 53"
proof -
  have "rne (of_int (2 ^ 52)) \<le> rne (x / ulp x)"
    using scaled_bounds(1) [OF assms] by (intro rne_mono) simp
  then show "2 ^ 52 \<le> rne (x / ulp x)" by (simp only: rne_of_int)
  have "rne (x / ulp x) \<le> rne (of_int (2 ^ 53))"
    using scaled_bounds(2) [OF assms] by (intro rne_mono) simp
  then show "rne (x / ulp x) \<le> 2 ^ 53" by (simp only: rne_of_int)
qed

lemma fl_range:
  assumes "0 < x"
  shows "2 powi expo x \<le> fl x" "fl x \<le> 2 powi (expo x + 1)"
proof -
  have "(2 ^ 52 :: real) \<le> of_int (rne (x / ulp x))"
    using rne_scaled_bounds(1) [OF assms] by (metis of_int_le_iff of_int_numeral of_int_power)
  then have "2 ^ 52 * ulp x \<le> of_int (rne (x / ulp x)) * ulp x"
    by (intro mult_right_mono) simp_all
  then show "2 powi expo x \<le> fl x" by (simp add: pow2_expo fl_pos_eq [OF assms])
  have "of_int (rne (x / ulp x)) \<le> (2 ^ 53 :: real)"
    using rne_scaled_bounds(2) [OF assms] by (metis of_int_le_iff of_int_numeral of_int_power)
  then have "of_int (rne (x / ulp x)) * ulp x \<le> 2 ^ 53 * ulp x"
    by (intro mult_right_mono) simp_all
  then show "fl x \<le> 2 powi (expo x + 1)" by (simp add: pow2_expo fl_pos_eq [OF assms])
qed

lemma fl_pos: "0 < x \<Longrightarrow> 0 < fl x"
  using fl_range(1) [of x] zero_less_power_int [of "2::real" "expo x"] by linarith

lemma fl_nonneg: "0 \<le> x \<Longrightarrow> 0 \<le> fl x"
  using fl_pos [of x] by (cases "x = 0") auto

lemma fl_close:
  assumes "0 < x"
  shows "\<bar>fl x - x\<bar> \<le> ulp x / 2"
proof -
  have "\<bar>of_int (rne (x / ulp x)) - x / ulp x\<bar> * ulp x \<le> 1 / 2 * ulp x"
    by (intro mult_right_mono rne_close) simp
  moreover have "\<bar>of_int (rne (x / ulp x)) - x / ulp x\<bar> * ulp x
      = \<bar>of_int (rne (x / ulp x)) * ulp x - x\<bar>"
  proof -
    have "\<bar>of_int (rne (x / ulp x)) - x / ulp x\<bar> * ulp x
        = \<bar>(of_int (rne (x / ulp x)) - x / ulp x) * ulp x\<bar>"
      by (simp add: abs_mult)
    also have "(of_int (rne (x / ulp x)) - x / ulp x) * ulp x
        = of_int (rne (x / ulp x)) * ulp x - x"
      by (simp add: left_diff_distrib)
    finally show ?thesis .
  qed
  ultimately show ?thesis by (simp add: fl_pos_eq [OF assms])
qed

lemma fl_rel_error_pos:
  assumes "0 < x"
  shows "\<bar>fl x - x\<bar> \<le> x / 2 ^ 53"
proof -
  have "ulp x / 2 = 2 ^ 52 * ulp x / 2 ^ 53" by simp
  also have "\<dots> \<le> x / 2 ^ 53"
    using expo_bounds [OF assms] by (intro divide_right_mono) (simp_all add: pow2_expo)
  finally show ?thesis using fl_close [OF assms] by linarith
qed

lemma fl_rel_error: "\<bar>fl x - x\<bar> \<le> \<bar>x\<bar> / 2 ^ 53"
proof (cases "0 < x")
  case True
  then show ?thesis using fl_rel_error_pos [of x] by simp
next
  case False
  show ?thesis
  proof (cases "x = 0")
    case True
    then show ?thesis by simp
  next
    case F: False
    with False have "0 < - x" by simp
    from fl_rel_error_pos [OF this] show ?thesis using False by (simp add: fl_minus)
  qed
qed

lemma expo_mono:
  assumes "0 < x" "x \<le> y"
  shows "expo x \<le> expo y"
proof -
  have "0 < y" using assms by simp
  from expo_bounds [OF assms(1)] expo_bounds [OF this]
  have "2 powi expo x < (2::real) powi (expo y + 1)" using assms(2) by linarith
  then have "expo x < expo y + 1" by (rule pow2_less_imp)
  then show ?thesis by simp
qed

lemma fl_mono_pos:
  assumes "0 < x" "x \<le> y"
  shows "fl x \<le> fl y"
proof -
  have y: "0 < y" using assms by simp
  show ?thesis
  proof (cases "expo x = expo y")
    case True
    then have u: "ulp x = ulp y" by (simp add: ulp_def)
    have "x / ulp y \<le> y / ulp y" using assms(2) by (intro divide_right_mono) simp_all
    then have "rne (x / ulp y) \<le> rne (y / ulp y)" by (rule rne_mono)
    then have "(of_int (rne (x / ulp y)) :: real) \<le> of_int (rne (y / ulp y))" by simp
    then have "of_int (rne (x / ulp y)) * ulp y \<le> of_int (rne (y / ulp y)) * ulp y"
      by (intro mult_right_mono) simp_all
    then show ?thesis by (simp add: fl_pos_eq [OF assms(1)] fl_pos_eq [OF y] u)
  next
    case False
    with expo_mono [OF assms] have "expo x + 1 \<le> expo y" by simp
    then have "(2::real) powi (expo x + 1) \<le> 2 powi expo y" by (rule power_int_increasing) simp
    with fl_range(2) [OF assms(1)] fl_range(1) [OF y] show ?thesis by linarith
  qed
qed

lemma fl_mono: "x \<le> y \<Longrightarrow> fl x \<le> fl y"
proof -
  assume xy: "x \<le> y"
  consider "0 < x" | "x \<le> 0" "0 \<le> y" | "y < 0" by linarith
  then show ?thesis
  proof cases
    case 1
    then show ?thesis using xy by (rule fl_mono_pos)
  next
    case 2
    then have "fl x \<le> 0" using fl_nonneg [of "- x"] by (simp add: fl_minus)
    moreover have "0 \<le> fl y" using 2 by (intro fl_nonneg)
    ultimately show ?thesis by simp
  next
    case 3
    then have "fl (- y) \<le> fl (- x)" using xy by (intro fl_mono_pos) simp_all
    then show ?thesis by (simp add: fl_minus)
  qed
qed

lemma fl_exact_pos:
  assumes "0 < k" "k < 2 ^ 53"
  shows "fl (of_int k * 2 powi m) = of_int k * 2 powi m"
proof -
  define x :: real where "x = of_int k * 2 powi m"
  define e where "e = expo x"
  have pos: "0 < x" using assms(1) by (simp add: x_def)
  have "(of_int k :: real) < of_int (2 ^ 53)" using assms(2) by (simp only: of_int_less_iff)
  then have "(of_int k :: real) < 2 ^ 53" by simp
  then have "x < 2 ^ 53 * 2 powi m" unfolding x_def by (intro mult_strict_right_mono) simp_all
  also have "\<dots> = 2 powi (53 + m)" by (simp add: power_int_add)
  finally have "2 powi e < (2::real) powi (53 + m)"
    using expo_bounds [OF pos] unfolding e_def by linarith
  then have "e < 53 + m" by (rule pow2_less_imp)
  define d where "d = nat (m - (e - 52))"
  have d: "m = (e - 52) + int d" using \<open>e < 53 + m\<close> by (simp add: d_def)
  have "(2::real) powi ((e - 52) + int d) = 2 powi (e - 52) * 2 powi (int d)"
    by (rule power_int_add) simp
  then have pm: "(2::real) powi m = ulp x * 2 ^ d"
    unfolding d [symmetric] by (simp add: ulp_def e_def)
  have "x = of_int k * 2 powi m" by (rule x_def)
  also have "\<dots> = of_int k * (ulp x * 2 ^ d)" by (simp only: pm)
  finally have xe: "x = of_int k * (ulp x * 2 ^ d)" .
  have "x / ulp x = of_int k * (ulp x * 2 ^ d) / ulp x" by (subst xe) (rule refl)
  also have "\<dots> = of_int (k * 2 ^ d)" by simp
  finally have "rne (x / ulp x) = k * 2 ^ d" by (simp only: rne_of_int)
  then have "fl x = of_int (k * 2 ^ d) * ulp x" by (simp only: fl_pos_eq [OF pos])
  also have "\<dots> = of_int k * (ulp x * 2 ^ d)" by simp
  also have "\<dots> = x" by (rule xe [symmetric])
  finally show ?thesis by (simp only: x_def)
qed

lemma fl_exact:
  assumes "\<bar>k\<bar> \<le> 2 ^ 53"
  shows "fl (of_int k * 2 powi m) = of_int k * 2 powi m"
proof -
  have p: "fl (of_int j * 2 powi m) = of_int j * 2 powi m" if "0 < j" "j \<le> 2 ^ 53" for j m
  proof (cases "j = 2 ^ 53")
    case True
    have "of_int j * (2::real) powi m = of_int 1 * 2 powi (m + 53)"
      by (simp add: True power_int_add)
    moreover have "fl (of_int 1 * 2 powi (m + 53)) = of_int 1 * 2 powi (m + 53)"
      by (rule fl_exact_pos) simp_all
    ultimately show ?thesis by simp
  next
    case False
    with that have "j < 2 ^ 53" by simp
    with that(1) show ?thesis by (rule fl_exact_pos)
  qed
  consider "0 < k" | "k = 0" | "k < 0" by linarith
  then show ?thesis
  proof cases
    case 1
    then show ?thesis using assms by (intro p) simp_all
  next
    case 2
    then show ?thesis by simp
  next
    case 3
    then have "fl (of_int (- k) * 2 powi m) = of_int (- k) * 2 powi m"
      using assms by (intro p) simp_all
    then show ?thesis using fl_minus [of "of_int k * 2 powi m"] by simp
  qed
qed

lemma fl_of_int: "\<bar>k\<bar> \<le> 2 ^ 53 \<Longrightarrow> fl (of_int k) = of_int k"
  using fl_exact [of k 0] by simp

lemma fl_idem: "fl (fl x) = fl x"
proof -
  have p: "fl (fl x) = fl x" if "0 < x" for x
  proof -
    have "\<bar>rne (x / ulp x)\<bar> \<le> 2 ^ 53"
      using rne_scaled_bounds [OF that] by simp
    then have "fl (of_int (rne (x / ulp x)) * 2 powi (expo x - 52))
        = of_int (rne (x / ulp x)) * 2 powi (expo x - 52)"
      by (rule fl_exact)
    then show ?thesis by (simp add: fl_pos_eq [OF that] ulp_def)
  qed
  consider "0 < x" | "x = 0" | "x < 0" by linarith
  then show ?thesis
  proof cases
    case 1
    then show ?thesis by (rule p)
  next
    case 2
    then show ?thesis by simp
  next
    case 3
    then have "fl (fl (- x)) = fl (- x)" by (intro p) simp
    then show ?thesis by (simp add: fl_minus)
  qed
qed

subsection \<open>One-decimal rounding in doubles\<close>

lemma eps_small: "0 < eps" "eps \<le> 1 / 1000000"
  by (simp_all add: eps_def)

lemma boundary_round1: "boundary n i = round1 (fl (fl (100 / of_int n) * of_nat i))"
  by (simp add: boundary_def tenths_def round1_def)

lemma fl_abs_error:
  assumes "\<bar>x\<bar> \<le> 1024"
  shows "\<bar>fl x - x\<bar> \<le> eps"
proof -
  have "\<bar>x\<bar> / 2 ^ 53 \<le> 1024 / 2 ^ 53" using assms by (intro divide_right_mono) simp_all
  also have "\<dots> = eps" by (simp add: eps_def)
  finally show ?thesis using fl_rel_error [of x] by linarith
qed

lemma fl_100 [simp]: "fl 100 = 100"
  using fl_of_int [of 100] by simp

lemma fl_1000 [simp]: "fl 1000 = 1000"
  using fl_of_int [of 1000] by simp

lemma fl_le_100: "x \<le> 100 \<Longrightarrow> fl x \<le> 100"
  using fl_mono [of x 100] by simp

lemma js_round_mono: "x \<le> y \<Longrightarrow> js_round x \<le> js_round y"
  by (simp add: js_round_def floor_mono)

lemma js_round_of_int [simp]: "js_round (of_int k) = k"
  by (simp add: js_round_def)

lemma js_round_near:
  assumes "\<bar>x - of_int k\<bar> < 1 / 2"
  shows "js_round x = k"
proof -
  from assms have "of_int k \<le> x + 1 / 2" "x + 1 / 2 < of_int k + 1" by linarith+
  then show ?thesis unfolding js_round_def by (simp add: floor_unique)
qed

lemma js_round_add_one: "js_round (x + 1) = js_round x + 1"
proof -
  have "\<lfloor>x + 1 + 1 / 2\<rfloor> = \<lfloor>(x + 1 / 2) + of_int 1\<rfloor>" by (simp add: algebra_simps)
  also have "\<dots> = \<lfloor>x + 1 / 2\<rfloor> + 1" by (rule floor_add_int [symmetric])
  finally show ?thesis by (simp add: js_round_def)
qed

lemma round1_mono: "x \<le> y \<Longrightarrow> round1 x \<le> round1 y"
  unfolding round1_def
  by (intro fl_mono divide_right_mono js_round_mono mult_right_mono)
     (simp_all add: js_round_mono fl_mono)

lemma js_round_1000 [simp]: "js_round 1000 = 1000"
  using js_round_of_int [of 1000] by simp

lemma round1_100 [simp]: "round1 100 = 100"
  by (simp add: round1_def)

lemma round1_le_100: "x \<le> 100 \<Longrightarrow> round1 x \<le> 100"
  using round1_mono [of x 100] by simp

text \<open>A value within \<open>2 * eps\<close> of \<open>m / 10\<close> rounds to the double of \<open>m / 10\<close>.\<close>

lemma round1_near:
  assumes "0 \<le> m" "m \<le> 1000" "\<bar>x - of_int m / 10\<bar> \<le> 2 * eps"
  shows "round1 x = fl (of_int m / 10)"
proof -
  have m: "(0::real) \<le> of_int m" "(of_int m :: real) \<le> 1000" using assms by simp_all
  from assms(3) have x: "of_int m / 10 - 2 * eps \<le> x" "x \<le> of_int m / 10 + 2 * eps"
    by linarith+
  then have "\<bar>x * 10\<bar> \<le> 1024" using m eps_small by linarith
  then have "\<bar>fl (x * 10) - x * 10\<bar> \<le> eps" by (rule fl_abs_error)
  with x eps_small have "\<bar>fl (x * 10) - of_int m\<bar> < 1 / 2" by linarith
  then have "js_round (fl (x * 10)) = m" by (rule js_round_near)
  then show ?thesis by (simp add: round1_def)
qed

lemma tenth_close:
  assumes "0 \<le> m" "m \<le> 1000"
  shows "\<bar>fl (of_int m / 10) - of_int m / 10\<bar> \<le> eps"
proof -
  have "(0::real) \<le> of_int m" "(of_int m :: real) \<le> 1000" using assms by simp_all
  then have "\<bar>of_int m / 10 :: real\<bar> \<le> 1024" by simp
  then show ?thesis by (rule fl_abs_error)
qed

lemma round1_tenth:
  assumes "0 \<le> m" "m \<le> 1000"
  shows "round1 (fl (of_int m / 10)) = fl (of_int m / 10)"
proof -
  have "\<bar>fl (of_int m / 10) - of_int m / 10\<bar> \<le> 2 * eps"
    using tenth_close [OF assms] eps_small by linarith
  with assms show ?thesis by (rule round1_near)
qed

lemma tenth_strict_mono:
  assumes "0 \<le> k" "k < m" "m \<le> 1000"
  shows "fl (of_int k / 10) < fl (of_int m / 10)"
proof -
  have "k + 1 \<le> m" using assms by simp
  then have "(of_int k :: real) + 1 \<le> of_int m" by (metis of_int_1 of_int_add of_int_le_iff)
  moreover have "\<bar>fl (of_int k / 10) - of_int k / 10\<bar> \<le> eps"
    using assms by (intro tenth_close) simp_all
  moreover have "\<bar>fl (of_int m / 10) - of_int m / 10\<bar> \<le> eps"
    using assms by (intro tenth_close) simp_all
  ultimately show ?thesis using eps_small by linarith
qed

text \<open>
  The argument of \<^verbatim>\<open>Math.round\<close> at boundary \<open>i\<close> is within \<open>32 * eps\<close> of the exact
  \<open>1000 * i / n\<close>.
\<close>

lemma round_arg_close:
  assumes "1 \<le> n" "i \<le> nat n"
  shows "\<bar>fl (fl (fl (100 / of_int n) * of_nat i) * 10) - 1000 * of_nat i / of_int n\<bar> \<le> 32 * eps"
    and "0 \<le> fl (fl (fl (100 / of_int n) * of_nat i) * 10)"
proof -
  define q :: real where "q = 100 / of_int n"
  define r :: real where "r = of_nat i / of_int n"
  define s where "s = fl q"
  define t where "t = s * of_nat i"
  define p where "p = fl t"
  define a where "a = fl (p * 10)"
  have n: "(1::real) \<le> of_int n" using assms(1) by simp
  have "(of_nat i :: real) \<le> of_int n" using assms by linarith
  then have r: "0 \<le> r" "r \<le> 1" using n by (simp_all add: r_def)
  have q: "0 < q" using n by (simp add: q_def)
  have qi: "q * of_nat i = 100 * r" by (simp add: q_def r_def)
  have s0: "0 \<le> s" unfolding s_def using q by (intro fl_nonneg) simp
  have "\<bar>s - q\<bar> \<le> q / 2 ^ 53" unfolding s_def using fl_rel_error [of q] q by simp
  then have "\<bar>s - q\<bar> * of_nat i \<le> q / 2 ^ 53 * of_nat i" by (intro mult_right_mono) simp_all
  also have "\<dots> = 100 * r / 2 ^ 53" using qi by simp
  also have "\<dots> \<le> 100 * 1 / 2 ^ 53" using r by (intro divide_right_mono mult_left_mono) simp_all
  also have "\<dots> \<le> eps" by (simp add: eps_def)
  finally have "\<bar>s - q\<bar> * of_nat i \<le> eps" .
  moreover have "\<bar>t - 100 * r\<bar> = \<bar>s - q\<bar> * of_nat i"
  proof -
    have "t - 100 * r = (s - q) * of_nat i" by (simp add: t_def qi [symmetric] left_diff_distrib)
    then show ?thesis by (simp add: abs_mult)
  qed
  ultimately have t: "\<bar>t - 100 * r\<bar> \<le> eps" by simp
  have t0: "0 \<le> t" unfolding t_def using s0 by simp
  have "\<bar>t\<bar> \<le> 1024" using t r eps_small by linarith
  then have p: "\<bar>p - t\<bar> \<le> eps" unfolding p_def by (rule fl_abs_error)
  have p0: "0 \<le> p" unfolding p_def using t0 by (rule fl_nonneg)
  have "\<bar>p * 10\<bar> \<le> 1024" using p t r eps_small by linarith
  then have a: "\<bar>a - p * 10\<bar> \<le> eps" unfolding a_def by (rule fl_abs_error)
  have "0 \<le> a" unfolding a_def using p0 by (intro fl_nonneg) simp
  moreover have "\<bar>a - 1000 * r\<bar> \<le> 32 * eps" using a p t eps_small by linarith
  moreover have "1000 * of_nat i / of_int n = 1000 * r" by (simp add: r_def)
  ultimately show "\<bar>fl (fl (fl (100 / of_int n) * of_nat i) * 10) - 1000 * of_nat i / of_int n\<bar> \<le> 32 * eps"
    and "0 \<le> fl (fl (fl (100 / of_int n) * of_nat i) * 10)"
    by (simp_all add: a_def p_def t_def s_def q_def)
qed

lemma tenths_range:
  assumes "1 \<le> n" "i \<le> nat n"
  shows "0 \<le> tenths n i" "tenths n i \<le> 1000"
proof -
  let ?a = "fl (fl (fl (100 / of_int n) * of_nat i) * 10)"
  from round_arg_close(2) [OF assms] have "js_round 0 \<le> js_round ?a" by (rule js_round_mono)
  then show "0 \<le> tenths n i" using js_round_of_int [of 0] by (simp add: tenths_def)
  have n: "(1::real) \<le> of_int n" using assms(1) by simp
  have "(of_nat i :: real) \<le> of_int n" using assms by linarith
  then have "1000 * of_nat i / of_int n \<le> (1000::real)" using n by (simp add: field_simps)
  with round_arg_close(1) [OF assms] eps_small have "?a \<le> 1000 + 1 / 4" by linarith
  then have "?a + 1 / 2 < 1001" by simp
  then have "\<lfloor>?a + 1 / 2\<rfloor> < 1001" by (simp add: floor_less_iff)
  then show "tenths n i \<le> 1000" by (simp add: tenths_def js_round_def)
qed

lemma tenths_0: "tenths n 0 = 0"
  using js_round_of_int [of 0] by (simp add: tenths_def)

lemma tenths_top:
  assumes "1 \<le> n"
  shows "tenths n (nat n) = 1000"
proof -
  let ?a = "fl (fl (fl (100 / of_int n) * of_nat (nat n)) * 10)"
  have e: "1000 * of_nat (nat n) / of_int n = (1000::real)" using assms by simp
  have "\<bar>?a - 1000 * of_nat (nat n) / of_int n\<bar> \<le> 32 * eps"
    using assms by (intro round_arg_close) simp_all
  then have "\<bar>?a - 1000\<bar> \<le> 32 * eps" unfolding e .
  then have "\<bar>?a - 1000\<bar> < 1 / 2" using eps_small by linarith
  moreover have "(1000::real) = of_int 1000" by simp
  ultimately have "\<bar>?a - of_int 1000\<bar> < 1 / 2" by (simp only:)
  then show ?thesis unfolding tenths_def by (rule js_round_near)
qed

lemma tenths_mono:
  assumes "1 \<le> n" "i \<le> j"
  shows "tenths n i \<le> tenths n j"
proof -
  have "0 \<le> fl (100 / of_int n)" using assms(1) by (intro fl_nonneg) simp
  moreover have "(of_nat i :: real) \<le> of_nat j" using assms(2) by simp
  ultimately have "fl (100 / of_int n) * of_nat i \<le> fl (100 / of_int n) * of_nat j"
    by (rule mult_left_mono [rotated])
  then have "fl (fl (100 / of_int n) * of_nat i) * 10 \<le> fl (fl (100 / of_int n) * of_nat j) * 10"
    by (simp add: fl_mono)
  then show ?thesis unfolding tenths_def by (intro js_round_mono fl_mono)
qed

text \<open>Up to a thousand layers neighbouring boundaries are at least one tenth apart.\<close>

lemma tenths_step:
  assumes "1 \<le> n" "n \<le> 1000" "Suc i \<le> nat n"
  shows "tenths n i + 1 \<le> tenths n (Suc i)"
proof -
  let ?a = "\<lambda>i. fl (fl (fl (100 / of_int n) * of_nat i) * 10)"
  have i: "i \<le> nat n" using assms(3) by simp
  have n: "(1::real) \<le> of_int n" using assms(1) by simp
  show ?thesis
  proof (cases "n = 1000")
    case True
    have x: "1000 * of_nat k / of_int n = (of_int (int k) :: real)" for k by (simp add: True)
    have "\<bar>?a k - of_int (int k)\<bar> < 1 / 2" if "k \<le> nat n" for k
      using round_arg_close(1) [OF assms(1) that] eps_small unfolding x by linarith
    then have "tenths n k = int k" if "k \<le> nat n" for k
      unfolding tenths_def using that by (intro js_round_near) simp
    then show ?thesis using i assms(3) by simp
  next
    case False
    with assms have "n \<le> 999" by simp
    then have "(of_int n :: real) \<le> 999" by (metis of_int_le_iff of_int_numeral)
    then have "1 + 1 / 1000 \<le> 1000 / (of_int n :: real)" using n by (simp add: field_simps)
    moreover have "1000 * of_nat (Suc i) / of_int n = 1000 * of_nat i / of_int n + 1000 / (of_int n :: real)"
      by (simp add: algebra_simps add_divide_distrib)
    ultimately have "?a i + 1 \<le> ?a (Suc i)"
      using round_arg_close(1) [OF assms(1) i] round_arg_close(1) [OF assms(1) assms(3)] eps_small
      by linarith
    then have "js_round (?a i + 1) \<le> js_round (?a (Suc i))" by (rule js_round_mono)
    then show ?thesis by (simp add: tenths_def js_round_add_one)
  qed
qed

subsection \<open>The partition in closed form\<close>

lemma ranges_loop_unfold:
  "ranges_loop n ov i rs = rs @ map (range_of_bin n ov) [i..<nat n]"
proof (induction n ov i rs rule: ranges_loop.induct)
  case (1 n ov i rs)
  show ?case
  proof (cases "int i < n")
    case True
    then have "i < nat n" by linarith
    then have "[i..<nat n] = i # [Suc i..<nat n]" by (simp add: upt_conv_Cons)
    moreover have "ranges_loop n ov i rs = ranges_loop n ov (Suc i) (rs @ [range_of_bin n ov i])"
      using True by (subst ranges_loop.simps) simp
    ultimately show ?thesis using "1" [OF True] by simp
  next
    case False
    then have "nat n \<le> i" by linarith
    moreover have "ranges_loop n ov i rs = rs"
      using False by (subst ranges_loop.simps) simp
    ultimately show ?thesis by simp
  qed
qed

lemma generateDepthRanges_map:
  "generateDepthRanges n ov = map (range_of_bin n ov) [0..<nat n]"
  by (simp add: generateDepthRanges_def ranges_loop_unfold)

lemma length_generateDepthRanges: "length (generateDepthRanges n ov) = nat n"
  by (simp add: generateDepthRanges_map)

lemma nth_generateDepthRanges:
  "i < nat n \<Longrightarrow> generateDepthRanges n ov ! i = range_of_bin n ov i"
  by (simp add: generateDepthRanges_map)

lemma boundary_0: "boundary n 0 = 0"
  by (simp add: boundary_def tenths_0)

lemma boundary_top: "1 \<le> n \<Longrightarrow> boundary n (nat n) = 100"
  by (simp add: boundary_def tenths_top)

lemma boundary_le_100:
  assumes "1 \<le> n" "i \<le> nat n"
  shows "boundary n i \<le> 100"
proof -
  have "(of_int (tenths n i) :: real) \<le> of_int 1000"
    using tenths_range(2) [OF assms] by (simp only: of_int_le_iff)
  then have "of_int (tenths n i) / 10 \<le> (100::real)" by simp
  then show ?thesis unfolding boundary_def by (rule fl_le_100)
qed

lemma boundary_mono:
  assumes "1 \<le> n" "i \<le> j"
  shows "boundary n i \<le> boundary n j"
proof -
  have "(of_int (tenths n i) :: real) \<le> of_int (tenths n j)"
    using tenths_mono [OF assms] by (simp only: of_int_le_iff)
  then have "of_int (tenths n i) / 10 \<le> (of_int (tenths n j) / 10 :: real)" by simp
  then show ?thesis unfolding boundary_def by (rule fl_mono)
qed

lemma boundary_nonneg: "1 \<le> n \<Longrightarrow> 0 \<le> boundary n i"
  using boundary_mono [of n 0 i] by (simp add: boundary_0)

lemma boundary_step:
  assumes "1 \<le> n" "n \<le> 1000" "Suc i \<le> nat n"
  shows "boundary n i < boundary n (Suc i)"
proof -
  have "i \<le> nat n" using assms(3) by simp
  then have "0 \<le> tenths n i" using assms(1) by (intro tenths_range)
  moreover have "tenths n i < tenths n (Suc i)" using tenths_step [OF assms] by simp
  moreover have "tenths n (Suc i) \<le> 1000" using assms by (intro tenths_range)
  ultimately show ?thesis unfolding boundary_def by (rule tenth_strict_mono)
qed

lemma round1_boundary:
  assumes "1 \<le> n" "i \<le> nat n"
  shows "round1 (boundary n i) = boundary n i"
  unfolding boundary_def using tenths_range [OF assms] by (rule round1_tenth)

lemma fl_boundary: "fl (boundary n i) = boundary n i"
  unfolding boundary_def by (rule fl_idem)

lemma of_nat_plus_one: "of_nat i + 1 = (of_nat (Suc i) :: real)"
  by simp

lemma range_of_bin_min:
  assumes "1 \<le> n" "i \<le> nat n"
  shows "range_min (range_of_bin n ov i) = boundary n i"
  using round1_boundary [OF assms]
  by (simp add: range_of_bin_def Let_def boundary_round1)

lemma range_of_bin_max:
  assumes "1 \<le> n" "Suc i \<le> nat n"
  shows "range_max (range_of_bin n ov i) =
     (if int i < n - 1 then round1 (min 100 (fl (boundary n (Suc i) + ov)))
      else boundary n (Suc i))"
  using round1_boundary [OF assms]
  unfolding range_of_bin_def Let_def boundary_round1 of_nat_plus_one
  by simp

lemma range_max_ge_boundary:
  assumes "1 \<le> n" "i < nat n" "0 \<le> ov"
  shows "boundary n (Suc i) \<le> range_max (range_of_bin n ov i)"
proof (cases "int i < n - 1")
  case True
  have s: "Suc i \<le> nat n" using assms(2) by simp
  have b: "boundary n (Suc i) \<le> 100" using assms(1) s by (rule boundary_le_100)
  have "fl (boundary n (Suc i)) \<le> fl (boundary n (Suc i) + ov)"
    using assms(3) by (intro fl_mono) simp
  then have "boundary n (Suc i) \<le> fl (boundary n (Suc i) + ov)" by (simp only: fl_boundary)
  with b have "boundary n (Suc i) \<le> min 100 (fl (boundary n (Suc i) + ov))" by simp
  then have "round1 (boundary n (Suc i)) \<le> round1 (min 100 (fl (boundary n (Suc i) + ov)))"
    by (rule round1_mono)
  with True show ?thesis
    by (simp add: range_of_bin_max [OF assms(1) s] round1_boundary [OF assms(1) s])
next
  case False
  have s: "Suc i \<le> nat n" using assms(2) by simp
  from False show ?thesis by (simp add: range_of_bin_max [OF assms(1) s])
qed

lemma range_max_le_100:
  assumes "1 \<le> n" "i < nat n"
  shows "range_max (range_of_bin n ov i) \<le> 100"
proof -
  have s: "Suc i \<le> nat n" using assms(2) by simp
  show ?thesis
    using boundary_le_100 [OF assms(1) s]
    by (simp add: range_of_bin_max [OF assms(1) s] round1_le_100)
qed

lemma range_max_overlap0:
  assumes "1 \<le> n" "i < nat n"
  shows "range_max (range_of_bin n 0 i) = boundary n (Suc i)"
proof -
  have s: "Suc i \<le> nat n" using assms(2) by simp
  have "boundary n (Suc i) \<le> 100" using assms(1) s by (rule boundary_le_100)
  then have "min 100 (boundary n (Suc i)) = boundary n (Suc i)" by simp
  then show ?thesis
    by (simp add: range_of_bin_max [OF assms(1) s] round1_boundary [OF assms(1) s] fl_boundary)
qed

lemma range_max_last:
  assumes "1 \<le> n"
  shows "range_max (range_of_bin n ov (nat n - 1)) = 100"
proof -
  have s: "Suc (nat n - 1) = nat n" using assms by simp
  then have "Suc (nat n - 1) \<le> nat n" by simp
  from range_of_bin_max [OF assms this, of ov]
  have "range_max (range_of_bin n ov (nat n - 1)) = boundary n (Suc (nat n - 1))"
    using assms by simp
  then show ?thesis using assms by (simp only: s boundary_top)
qed

lemma between_neighbours:
  fixes f :: "nat \<Rightarrow> real"
  shows "f 0 \<le> d \<Longrightarrow> d \<le> f k \<Longrightarrow> 0 < k \<Longrightarrow> \<exists>i<k. f i \<le> d \<and> d \<le> f (Suc i)"
proof (induction k)
  case 0
  then show ?case by simp
next
  case (Suc k)
  show ?case
  proof (cases "d \<le> f k \<and> 0 < k")
    case True
    with Suc obtain i where "i < k" "f i \<le> d" "d \<le> f (Suc i)" by blast
    then show ?thesis by (intro exI [of _ i]) simp
  next
    case False
    with Suc.prems have "f k \<le> d" by (cases "k = 0") auto
    with Suc.prems show ?thesis by (intro exI [of _ k]) simp
  qed
qed

lemma strictly_between_neighbours:
  fixes f :: "nat \<Rightarrow> real"
  shows "f 0 \<le> d \<Longrightarrow> d < f k \<Longrightarrow> \<exists>i<k. f i \<le> d \<and> d < f (Suc i)"
proof (induction k)
  case 0
  then show ?case by simp
next
  case (Suc k)
  show ?case
  proof (cases "d < f k")
    case True
    with Suc obtain i where "i < k" "f i \<le> d" "d < f (Suc i)" by blast
    then show ?thesis by (intro exI [of _ i]) simp
  next
    case False
    with Suc.prems show ?thesis by (intro exI [of _ k]) simp
  qed
qed

text \<open>A whole-number overlap added to a boundary of \<open>k\<close> tenths.\<close>

lemma round1_boundary_plus_int:
  assumes "0 \<le> k" "k \<le> 1000" "1 \<le> j"
  shows "round1 (min 100 (fl (fl (of_int k / 10) + of_int j)))
           = fl (of_int (min 1000 (k + 10 * j)) / 10)"
proof -
  define b :: real where "b = fl (of_int k / 10)"
  have b: "\<bar>b - of_int k / 10\<bar> \<le> eps" unfolding b_def using assms(1,2) by (rule tenth_close)
  have k: "(0::real) \<le> of_int k" "(of_int k :: real) \<le> 1000" using assms by simp_all
  have j: "(1::real) \<le> of_int j" using assms(3) by simp
  have sum: "of_int (k + 10 * j) / 10 = of_int k / 10 + (of_int j :: real)" by simp
  show ?thesis
  proof (cases "100 \<le> b + of_int j")
    case True
    then have "fl 100 \<le> fl (b + of_int j)" by (rule fl_mono)
    then have "min 100 (fl (b + of_int j)) = 100" by simp
    moreover have "(999::real) < of_int (k + 10 * j)"
      using True b eps_small sum by linarith
    then have "of_int 999 < (of_int (k + 10 * j) :: real)" by simp
    then have "999 < k + 10 * j" by (simp only: of_int_less_iff)
    then have "min 1000 (k + 10 * j) = 1000" by simp
    ultimately show ?thesis by (simp add: b_def [symmetric])
  next
    case False
    then have "fl (b + of_int j) \<le> 100" by (intro fl_le_100) simp
    then have m: "min 100 (fl (b + of_int j)) = fl (b + of_int j)" by simp
    have "(of_int (k + 10 * j) :: real) < 1001"
      using False b eps_small sum by linarith
    then have "(of_int (k + 10 * j) :: real) < of_int 1001" by simp
    then have "k + 10 * j < 1001" by (simp only: of_int_less_iff)
    then have le: "k + 10 * j \<le> 1000" by simp
    have ge: "0 \<le> k + 10 * j" using assms by simp
    have "\<bar>b + of_int j\<bar> \<le> 1024" using False b k j eps_small by linarith
    then have "\<bar>fl (b + of_int j) - (b + of_int j)\<bar> \<le> eps" by (rule fl_abs_error)
    then have "\<bar>fl (b + of_int j) - of_int (k + 10 * j) / 10\<bar> \<le> 2 * eps"
      using b sum by linarith
    with ge le have "round1 (fl (b + of_int j)) = fl (of_int (k + 10 * j) / 10)"
      by (rule round1_near)
    then show ?thesis using le by (simp add: m b_def [symmetric] min_absorb2)
  qed
qed

subsection \<open>The partition without overlap\<close>

text \<open>
  C3. For every layer count \<open>n \<ge> 1\<close> and overlap \<open>0\<close>, \<^verbatim>\<open>generateDepthRanges\<close> returns exactly
  \<open>n\<close> ranges, in ascending order, each range's \<open>max\<close> being the next range's \<open>min\<close>, the
  first \<open>min\<close> being \<open>0\<close> and the last \<open>max\<close> being \<open>100\<close>; every depth of \<open>[0, 100]\<close> lies
  between the \<open>min\<close> and the \<open>max\<close> of one of them, so their union covers \<open>[0, 100]\<close>.
\<close>

theorem partition_overlap0:
  "1 \<le> n \<Longrightarrow>
     length (generateDepthRanges n 0) = nat n
   \<and> (\<forall>i. Suc i < nat n \<longrightarrow>
          range_max (generateDepthRanges n 0 ! i) = range_min (generateDepthRanges n 0 ! Suc i))
   \<and> (\<forall>i. Suc i < nat n \<longrightarrow>
          range_min (generateDepthRanges n 0 ! i) \<le> range_min (generateDepthRanges n 0 ! Suc i))
   \<and> range_min (generateDepthRanges n 0 ! 0) = 0
   \<and> range_max (generateDepthRanges n 0 ! (nat n - 1)) = 100
   \<and> (\<forall>d. 0 \<le> d \<and> d \<le> 100 \<longrightarrow>
          (\<exists>i<nat n. range_min (generateDepthRanges n 0 ! i) \<le> d
                    \<and> d \<le> range_max (generateDepthRanges n 0 ! i)))"
proof -
  assume n: "1 \<le> n"
  have nth: "generateDepthRanges n 0 ! i = range_of_bin n 0 i" if "i < nat n" for i
    using that by (rule nth_generateDepthRanges)
  have mx: "range_max (generateDepthRanges n 0 ! i) = boundary n (Suc i)" if "i < nat n" for i
    using that n by (simp add: nth range_max_overlap0)
  have mn: "range_min (generateDepthRanges n 0 ! i) = boundary n i" if "i < nat n" for i
    using that n by (simp add: nth range_of_bin_min)
  have contiguous: "\<forall>i. Suc i < nat n \<longrightarrow>
      range_max (generateDepthRanges n 0 ! i) = range_min (generateDepthRanges n 0 ! Suc i)"
    by (simp add: mx mn)
  have ascending: "\<forall>i. Suc i < nat n \<longrightarrow>
      range_min (generateDepthRanges n 0 ! i) \<le> range_min (generateDepthRanges n 0 ! Suc i)"
    using n by (simp add: mn boundary_mono)
  have first: "range_min (generateDepthRanges n 0 ! 0) = 0"
    using n by (simp add: mn boundary_0)
  have last: "range_max (generateDepthRanges n 0 ! (nat n - 1)) = 100"
    using n range_max_last [of n 0] by (simp add: nth)
  have cover: "\<exists>i<nat n. range_min (generateDepthRanges n 0 ! i) \<le> d
                    \<and> d \<le> range_max (generateDepthRanges n 0 ! i)"
    if "0 \<le> d \<and> d \<le> 100" for d
  proof -
    have "boundary n 0 \<le> d" "d \<le> boundary n (nat n)" "0 < nat n"
      using that n by (simp_all add: boundary_0 boundary_top)
    then obtain i where "i < nat n" "boundary n i \<le> d" "d \<le> boundary n (Suc i)"
      using between_neighbours [of "boundary n" d "nat n"] by blast
    then show ?thesis by (intro exI [of _ i]) (simp add: mn mx)
  qed
  show ?thesis
    using contiguous ascending first last cover
    by (simp add: length_generateDepthRanges)
qed

theorem partition_overlap0_witness:
  "(1::int) \<le> 4
   \<and> length (generateDepthRanges 4 0) = 4
   \<and> range_max (generateDepthRanges 4 0 ! 0) = range_min (generateDepthRanges 4 0 ! 1)
   \<and> range_min (generateDepthRanges 4 0 ! 0) = 0
   \<and> range_max (generateDepthRanges 4 0 ! 3) = 100"
  using partition_overlap0 [of 4] by (simp add: numeral_eq_Suc)

subsection \<open>The partition with overlap\<close>

text \<open>
  C4, as the code has it. For every layer count \<open>n \<ge> 1\<close> and overlap \<open>ov > 0\<close>, compared with
  the partition for overlap \<open>0\<close>: there are as many ranges; every range's \<open>min\<close> is unchanged;
  every non-final range's \<open>max\<close> is the overlap-free \<open>max\<close> plus the overlap, clamped at \<open>100\<close>
  and then rounded to one decimal as the double arithmetic of the code rounds it,
  \<open>round1 (min 100 (fl (rawMax + ov)))\<close>; for a whole-number overlap \<open>j\<close> and an overlap-free
  \<open>max\<close> of \<open>k\<close> tenths that is \<open>min 1000 (k + 10 * j)\<close> tenths, the decimal value of
  \<open>min 100 (rawMax + ov)\<close>; and the final range's \<open>max\<close> is exactly \<open>100\<close>.
\<close>

theorem overlap_extends_max:
  "1 \<le> n \<Longrightarrow> 0 < ov \<Longrightarrow> i < nat n \<Longrightarrow>
     length (generateDepthRanges n ov) = length (generateDepthRanges n 0)
   \<and> range_min (generateDepthRanges n ov ! i) = range_min (generateDepthRanges n 0 ! i)
   \<and> (Suc i < nat n \<longrightarrow>
        range_max (generateDepthRanges n ov ! i)
          = round1 (min 100 (fl (range_max (generateDepthRanges n 0 ! i) + ov))))
   \<and> (Suc i < nat n \<longrightarrow> (\<forall>j::int. ov = of_int j \<longrightarrow>
        (\<exists>k. 0 \<le> k \<and> k \<le> 1000
           \<and> range_max (generateDepthRanges n 0 ! i) = fl (of_int k / 10)
           \<and> range_max (generateDepthRanges n ov ! i)
               = fl (of_int (min 1000 (k + 10 * j)) / 10))))
   \<and> range_max (generateDepthRanges n ov ! (nat n - 1)) = 100"
proof -
  assume n: "1 \<le> n" and ov: "0 < ov" and i: "i < nat n"
  have s: "Suc i \<le> nat n" using i by simp
  have mx0: "range_max (generateDepthRanges n 0 ! i) = boundary n (Suc i)"
    using n i by (simp add: nth_generateDepthRanges range_max_overlap0)
  have mx: "range_max (generateDepthRanges n ov ! i) = round1 (min 100 (fl (boundary n (Suc i) + ov)))"
    if "Suc i < nat n"
  proof -
    from that have "int i < n - 1" by linarith
    then show ?thesis using i by (simp add: nth_generateDepthRanges range_of_bin_max [OF n s])
  qed
  have whole: "\<exists>k. 0 \<le> k \<and> k \<le> 1000
           \<and> range_max (generateDepthRanges n 0 ! i) = fl (of_int k / 10)
           \<and> range_max (generateDepthRanges n ov ! i)
               = fl (of_int (min 1000 (k + 10 * j)) / 10)"
    if "Suc i < nat n" "ov = of_int j" for j
  proof -
    have j: "1 \<le> j" using ov that(2) by simp
    have k: "0 \<le> tenths n (Suc i)" "tenths n (Suc i) \<le> 1000" using n s by (rule tenths_range)+
    have "range_max (generateDepthRanges n ov ! i)
        = round1 (min 100 (fl (fl (of_int (tenths n (Suc i)) / 10) + of_int j)))"
      using mx [OF that(1)] by (simp add: boundary_def that(2))
    also have "\<dots> = fl (of_int (min 1000 (tenths n (Suc i) + 10 * j)) / 10)"
      using k j by (rule round1_boundary_plus_int)
    finally show ?thesis using k mx0 by (intro exI [of _ "tenths n (Suc i)"]) (simp add: boundary_def)
  qed
  have last: "range_max (generateDepthRanges n ov ! (nat n - 1)) = 100"
    using n range_max_last [of n ov] by (simp add: nth_generateDepthRanges)
  have mn: "range_min (generateDepthRanges n ov ! i) = range_min (generateDepthRanges n 0 ! i)"
    using i n by (simp add: nth_generateDepthRanges range_of_bin_min)
  show ?thesis
    using mx whole last mn by (simp add: mx0 length_generateDepthRanges)
qed

theorem overlap_extends_max_witness:
  "(1::int) \<le> 4 \<and> (0::real) < 10 \<and> (0::nat) < nat 4
   \<and> range_min (generateDepthRanges 4 10 ! 0) = range_min (generateDepthRanges 4 0 ! 0)
   \<and> range_max (generateDepthRanges 4 0 ! 0) = 25
   \<and> range_max (generateDepthRanges 4 10 ! 0) = 35
   \<and> range_max (generateDepthRanges 4 10 ! 3) = 100"
proof -
  have f: "fl 25 = 25" "fl 250 = 250" "fl 35 = 35" "fl 350 = 350"
    using fl_of_int [of 25] fl_of_int [of 250] fl_of_int [of 35] fl_of_int [of 350] by simp_all
  have r: "round1 25 = 25" "round1 35 = 35" by (simp_all add: round1_def js_round_def f)
  have m0: "range_max (generateDepthRanges 4 0 ! 0) = 25"
    by (simp add: nth_generateDepthRanges range_of_bin_def Let_def f r)
  show ?thesis
    using overlap_extends_max [of 4 10 0] by (simp add: m0 f r)
qed

text \<open>
  Without the rounding the equation fails: two layers with overlap \<open>1/4\<close> give the first
  range the \<open>max\<close> \<open>50.3\<close>, not \<open>50.25\<close>.
\<close>

theorem overlap_extends_max_counterexample:
  "(0::nat) < nat 2 - 1 \<and>
   range_max (generateDepthRanges 2 (1 / 4) ! 0)
     \<noteq> min 100 (range_max (generateDepthRanges 2 0 ! 0) + 1 / 4)"
proof -
  have f: "fl 50 = 50" "fl 500 = 500"
    using fl_of_int [of 50] fl_of_int [of 500] by simp_all
  have g: "fl (201 / 4) = 201 / 4" "fl (1005 / 2) = 1005 / 2"
    using fl_exact [of 201 "- 2"] fl_exact [of 1005 "- 1"] by simp_all
  have r: "round1 50 = 50" by (simp add: round1_def js_round_def f)
  have m0: "range_max (range_of_bin 2 0 0) = 50"
    by (simp add: range_of_bin_def Let_def f r)
  have m: "range_max (range_of_bin 2 (1 / 4) 0) = fl (503 / 10)"
    by (simp add: range_of_bin_def Let_def f r g round1_def js_round_def)
  have "\<bar>fl (of_int 503 / 10) - of_int 503 / 10\<bar> \<le> eps" by (rule tenth_close) simp_all
  then have "fl (503 / 10) \<noteq> 201 / 4" using eps_small by simp
  then show ?thesis by (simp add: nth_generateDepthRanges m0 m)
qed

text \<open>
  Where the sum or the product falls half-way between two tenths, the double arithmetic
  decides. Three layers with the overlap \<^verbatim>\<open>0.05\<close> (the double nearest to \<open>1/20\<close>): the sum
  \<^verbatim>\<open>33.3 + 0.05\<close> is the double just below \<open>33.35\<close> and the first \<open>max\<close> is \<^verbatim>\<open>33.3\<close>. And 464
  layers without overlap: the product for the upper edge of bin 144 is a double just below
  \<open>312.5\<close> and the \<open>max\<close> is \<^verbatim>\<open>31.2\<close>.
\<close>

lemma overlap_tie:
  "range_max (generateDepthRanges 3 (fl (1 / 20)) ! 0) = fl (333 / 10)"
proof -
  have "range_max (range_of_bin 3 (fl (1 / 20)) 0) = fl (333 / 10)" by code_simp
  then show ?thesis by (simp add: nth_generateDepthRanges)
qed

lemma boundary_tie:
  "range_max (generateDepthRanges 464 0 ! 144) = fl (312 / 10)"
proof -
  have "range_max (range_of_bin 464 0 144) = fl (312 / 10)" by code_simp
  then show ?thesis by (simp add: nth_generateDepthRanges)
qed

subsection \<open>Bounds of a range\<close>

text \<open>
  C6, as the code has it. For every layer count \<open>1 \<le> n \<le> 1000\<close> and overlap \<open>ov \<ge> 0\<close>, every
  range of the partition satisfies \<open>0 \<le> min < max \<le> 100 + ov\<close>. (Up to a thousand layers
  the step is at least one tenth, the rounding precision.)
\<close>

theorem range_bounds:
  "1 \<le> n \<Longrightarrow> n \<le> 1000 \<Longrightarrow> 0 \<le> ov \<Longrightarrow> i < nat n \<Longrightarrow>
     0 \<le> range_min (generateDepthRanges n ov ! i)
   \<and> range_min (generateDepthRanges n ov ! i) < range_max (generateDepthRanges n ov ! i)
   \<and> range_max (generateDepthRanges n ov ! i) \<le> 100 + ov"
proof -
  assume n: "1 \<le> n" "n \<le> 1000" and ov: "0 \<le> ov" and i: "i < nat n"
  have s: "Suc i \<le> nat n" and i': "i \<le> nat n" using i by simp_all
  have "boundary n i < boundary n (Suc i)"
    using n s by (rule boundary_step)
  also have "\<dots> \<le> range_max (range_of_bin n ov i)"
    using n(1) i ov by (rule range_max_ge_boundary)
  finally have "range_min (range_of_bin n ov i) < range_max (range_of_bin n ov i)"
    by (simp add: range_of_bin_min [OF n(1) i'])
  moreover have "0 \<le> range_min (range_of_bin n ov i)"
    using n(1) by (simp add: range_of_bin_min [OF n(1) i'] boundary_nonneg)
  moreover have "range_max (range_of_bin n ov i) \<le> 100 + ov"
    using range_max_le_100 [OF n(1) i, of ov] ov by simp
  ultimately show ?thesis using i by (simp add: nth_generateDepthRanges)
qed

theorem range_bounds_witness:
  "(1::int) \<le> 4 \<and> (4::int) \<le> 1000 \<and> (0::real) \<le> 10 \<and> (2::nat) < nat 4
   \<and> 0 \<le> range_min (generateDepthRanges 4 10 ! 2)
   \<and> range_min (generateDepthRanges 4 10 ! 2) < range_max (generateDepthRanges 4 10 ! 2)
   \<and> range_max (generateDepthRanges 4 10 ! 2) \<le> 100 + 10"
  using range_bounds [of 4 10 2] by simp

text \<open>
  Beyond a thousand layers neighbouring boundaries round to the same tenth: with 2048
  layers and no overlap the first range is \<open>(0, 0)\<close>.
\<close>

theorem range_bounds_counterexample:
  "(1::int) \<le> 2048 \<and> (0::real) \<le> 0 \<and> (0::nat) < length (generateDepthRanges 2048 0)
   \<and> \<not> range_min (generateDepthRanges 2048 0 ! 0) < range_max (generateDepthRanges 2048 0 ! 0)"
proof -
  have f: "fl (25 / 512) = 25 / 512" "fl (125 / 256) = 125 / 256"
    using fl_exact [of 25 "- 9"] fl_exact [of 125 "- 8"] by simp_all
  have "range_of_bin 2048 0 0 = \<lparr>range_min = 0, range_max = 0\<rparr>"
    by (simp add: range_of_bin_def Let_def round1_def js_round_def f)
  then show ?thesis by (simp add: length_generateDepthRanges nth_generateDepthRanges)
qed

subsection \<open>Depths accepted by the layers\<close>

text \<open>
  C1 states that every depth of \<open>[0, 100]\<close> is accepted by the mask test of some range, a
  depth of exactly \<open>100\<close> by the final one. In the code the depth \<open>100\<close> (the depth of a pixel
  whose red byte is \<open>255\<close>) is masked by every range of every partition: no range has a
  \<open>max\<close> above \<open>100\<close>, and \<^verbatim>\<open>cutByDepthRange\<close> masks \<open>depth \<ge> maxDepth\<close> in the final range as
  in any other.
\<close>

theorem depth_100_masked_in_every_layer:
  "1 \<le> n \<Longrightarrow> r \<in> set (generateDepthRanges n ov) \<Longrightarrow>
     masked (range_min r) (range_max r) 100"
proof -
  assume n: "1 \<le> n" and r: "r \<in> set (generateDepthRanges n ov)"
  from r obtain i where i: "i < nat n" and ri: "r = range_of_bin n ov i"
    by (auto simp: generateDepthRanges_map)
  have "range_max r \<le> 100" unfolding ri using n i by (rule range_max_le_100)
  then show ?thesis by (simp add: masked_def)
qed

lemma fl_1 [simp]: "fl 1 = 1"
  using fl_of_int [of 1] by simp

lemma round1_0 [simp]: "round1 0 = 0"
  by (simp add: round1_def js_round_def)

lemma generateDepthRanges_1: "generateDepthRanges 1 0 = [\<lparr>range_min = 0, range_max = 100\<rparr>]"
  by (simp add: generateDepthRanges_map range_of_bin_def Let_def)

lemma depth_of_gray_255: "depth_of_gray 255 = 100"
  by (simp add: depth_of_gray_def)

lemma depth_of_gray_0: "depth_of_gray 0 = 0"
  by (simp add: depth_of_gray_def)

theorem depth_100_masked_in_every_layer_witness:
  "(1::int) \<le> 1
   \<and> \<lparr>range_min = 0, range_max = 100\<rparr> \<in> set (generateDepthRanges 1 0)
   \<and> depth_of_gray 255 = 100
   \<and> masked 0 100 (depth_of_gray 255)"
  using depth_100_masked_in_every_layer [of 1 "\<lparr>range_min = 0, range_max = 100\<rparr>" 0]
  by (simp add: generateDepthRanges_1 depth_of_gray_255)

text \<open>Every depth below \<open>100\<close> is accepted by some range, whatever the overlap \<open>ov \<ge> 0\<close>.\<close>

lemma depth_below_100_covered:
  assumes "1 \<le> n" "0 \<le> ov" "0 \<le> d" "d < 100"
  shows "\<exists>r\<in>set (generateDepthRanges n ov). \<not> masked (range_min r) (range_max r) d"
proof -
  have "boundary n 0 \<le> d" "d < boundary n (nat n)"
    using assms by (simp_all add: boundary_0 boundary_top)
  then obtain i where i: "i < nat n" "boundary n i \<le> d" "d < boundary n (Suc i)"
    using strictly_between_neighbours [of "boundary n" d "nat n"] by blast
  have i': "i \<le> nat n" using i(1) by simp
  from i(3) have "d < range_max (range_of_bin n ov i)"
    using range_max_ge_boundary [OF assms(1) i(1) assms(2)] by simp
  with i(2) have "\<not> masked (range_min (range_of_bin n ov i)) (range_max (range_of_bin n ov i)) d"
    by (simp add: masked_def range_of_bin_min [OF assms(1) i'])
  moreover have "range_of_bin n ov i \<in> set (generateDepthRanges n ov)"
    using i(1) by (simp add: generateDepthRanges_map)
  ultimately show ?thesis by blast
qed

subsection \<open>Reading a canvas\<close>

lemma byte_div_mod: "c < 4 \<Longrightarrow> (p * 4 + c) div 4 = p \<and> (p * 4 + c) mod 4 = (c::nat)"
  by simp



lemma canvas_byte_opaque:
  assumes "p * 4 + 3 < length dat" "dat ! (p * 4 + 3) = 255" "c < 3"
  shows "canvas_byte rt dat (p * 4 + c) = dat ! (p * 4 + c)"
  using assms byte_div_mod [of c p] by (simp add: canvas_byte_def Let_def)

lemma paint_dims [simp]:
  "width (paint rt w h dat) = w" "height (paint rt w h dat) = h"
  "length (data (paint rt w h dat)) = 4 * w * h"
  by (simp_all add: paint_def)

lemma nth_paint: "j < 4 * w * h \<Longrightarrow> data (paint rt w h dat) ! j = canvas_byte rt dat j"
  by (simp add: paint_def)

lemma length_getImageData: "length (getImageData cv) = 4 * width cv * height cv"
  by (simp add: getImageData_def)

lemma getImageData_exact:
  "length (data cv) = 4 * width cv * height cv \<Longrightarrow> getImageData cv = data cv"
  by (rule nth_equalityI) (simp_all add: getImageData_def)

lemma getImageData_paint: "getImageData (paint rt w h dat) = data (paint rt w h dat)"
  by (rule getImageData_exact) simp

subsection \<open>The depth field\<close>

lemma depth_row_loop_unfold:
  "depth_row_loop dat w y x row =
     row @ map (\<lambda>x'. depth_of_gray (dat ! ((y * w + x') * 4))) [x..<w]"
proof (induction dat w y x row rule: depth_row_loop.induct)
  case (1 dat w y x row)
  show ?case
  proof (cases "x < w")
    case True
    then have "[x..<w] = x # [Suc x..<w]" by (simp add: upt_conv_Cons)
    moreover have "depth_row_loop dat w y x row =
        depth_row_loop dat w y (Suc x) (row @ [depth_of_gray (dat ! ((y * w + x) * 4))])"
      using True by (subst depth_row_loop.simps) (simp add: Let_def)
    ultimately show ?thesis using "1" [OF True refl refl refl] by simp
  next
    case False
    moreover from False have "depth_row_loop dat w y x row = row"
      by (subst depth_row_loop.simps) simp
    ultimately show ?thesis by simp
  qed
qed

lemma depth_rows_loop_unfold:
  "depth_rows_loop dat w h y depthData =
     depthData @ map (\<lambda>y'. depth_row_loop dat w y' 0 []) [y..<h]"
proof (induction dat w h y depthData rule: depth_rows_loop.induct)
  case (1 dat w h y depthData)
  show ?case
  proof (cases "y < h")
    case True
    then have "[y..<h] = y # [Suc y..<h]" by (simp add: upt_conv_Cons)
    moreover have "depth_rows_loop dat w h y depthData =
        depth_rows_loop dat w h (Suc y) (depthData @ [depth_row_loop dat w y 0 []])"
      using True by (subst depth_rows_loop.simps) simp
    ultimately show ?thesis using "1" [OF True] by simp
  next
    case False
    moreover from False have "depth_rows_loop dat w h y depthData = depthData"
      by (subst depth_rows_loop.simps) simp
    ultimately show ?thesis by simp
  qed
qed

lemma convertDepthImageToData_map:
  "convertDepthImageToData cv =
     map (\<lambda>y. map (\<lambda>x. depth_of_gray (getImageData cv ! ((y * width cv + x) * 4)))
                  [0..<width cv])
       [0..<height cv]"
  by (simp add: convertDepthImageToData_def depth_rows_loop_unfold depth_row_loop_unfold)

lemma length_convertDepthImageToData:
  "length (convertDepthImageToData cv) = height cv"
  by (simp add: convertDepthImageToData_map)

lemma scaled_byte_bounds:
  assumes "n \<le> 255"
  shows "0 \<le> fl (fl (real n / 255) * 100) \<and> fl (fl (real n / 255) * 100) \<le> 100"
proof -
  have "real n / 255 \<le> 1" using assms by simp
  then have "fl (real n / 255) \<le> fl 1" by (rule fl_mono)
  then have "fl (real n / 255) * 100 \<le> 100" by simp
  then have "fl (fl (real n / 255) * 100) \<le> 100" by (rule fl_le_100)
  moreover have "0 \<le> fl (real n / 255)" by (intro fl_nonneg) simp
  then have "0 \<le> fl (fl (real n / 255) * 100)" by (intro fl_nonneg) simp
  ultimately show ?thesis by simp
qed

lemma depth_of_gray_bounds: "0 \<le> depth_of_gray g \<and> depth_of_gray g \<le> 100"
proof -
  have "unat g < 2 ^ 8" using unsigned_less [of g, where ?'a = nat] by simp
  then have "unat g \<le> 255" by simp
  then show ?thesis unfolding depth_of_gray_def by (rule scaled_byte_bounds)
qed

lemma autoAdjust_dims:
  "width (autoAdjustDepthImage rt smooth orig dep) = width orig \<and>
   height (autoAdjustDepthImage rt smooth orig dep) = height orig"
  by (simp add: autoAdjustDepthImage_def resizeImage_def checkSizeMatch_def drawImage_def)

lemma autoAdjust_length:
  "length (data (autoAdjustDepthImage rt smooth orig dep)) = 4 * width orig * height orig"
  by (simp add: autoAdjustDepthImage_def resizeImage_def checkSizeMatch_def drawImage_def)

lemma autoAdjust_getImageData:
  "getImageData (autoAdjustDepthImage rt smooth orig dep)
     = data (autoAdjustDepthImage rt smooth orig dep)"
  by (rule getImageData_exact) (simp add: autoAdjust_length autoAdjust_dims)

lemma byte_index_less: "p < q \<Longrightarrow> c < 4 \<Longrightarrow> p * 4 + c < 4 * (q::nat)"
  by arith

lemma pixel_index_less:
  assumes "x < w" "y < h" "c < 4"
  shows "(y * w + x) * 4 + c < 4 * w * (h::nat)"
proof -
  have "y * w + x < Suc y * w" using assms by simp
  also have "\<dots> \<le> h * w" using assms by (intro mult_le_mono1) simp
  finally have "y * w + x < w * h" by (simp add: mult.commute)
  then have "(y * w + x) * 4 + c < 4 * (w * h)" using assms(3) by (rule byte_index_less)
  then show ?thesis by (simp only: mult.assoc)
qed

lemma red_index_less:
  assumes "x < w" "y < h"
  shows "(y * w + x) * 4 < 4 * w * (h::nat)"
  using pixel_index_less [OF assms, of 0] by simp

text \<open>
  C5. For every colour image \<open>orig\<close> and depth image \<open>dep\<close> (and whatever the browser's
  canvases and smoothing filter do), the depth field extracted from the adjusted depth
  canvas has exactly the colour image's dimensions: \<open>height orig\<close> rows of \<open>width orig\<close>
  entries. Each entry is \<open>(red / 255) * 100\<close> in double arithmetic for the red byte of the
  canvas pixel, a value in \<open>[0, 100]\<close>, with no clamping in the code. When the dimensions
  match, the canvas pixel is the depth image's own pixel at the same place, drawn
  unscaled (so the entry comes from the depth image's own red byte where that pixel is
  opaque); when they differ, it is the pixel the browser's scaled drawing gives the
  canvas of the colour image's dimensions.
\<close>

theorem depth_field_dimensions_and_values:
  "length (convertDepthImageToData (autoAdjustDepthImage rt smooth orig dep)) = height orig
   \<and> (\<forall>y<height orig.
        length (convertDepthImageToData (autoAdjustDepthImage rt smooth orig dep) ! y) = width orig
      \<and> (\<forall>x<width orig.
            convertDepthImageToData (autoAdjustDepthImage rt smooth orig dep) ! y ! x
              = fl (fl (real (unat (data (autoAdjustDepthImage rt smooth orig dep)
                                      ! ((y * width orig + x) * 4))) / 255) * 100)
          \<and> 0 \<le> convertDepthImageToData (autoAdjustDepthImage rt smooth orig dep) ! y ! x
          \<and> convertDepthImageToData (autoAdjustDepthImage rt smooth orig dep) ! y ! x \<le> 100
          \<and> (checkSizeMatch orig dep \<longrightarrow>
                data (autoAdjustDepthImage rt smooth orig dep) ! ((y * width orig + x) * 4)
                  = canvas_byte rt (data dep) ((y * width dep + x) * 4))
          \<and> (checkSizeMatch orig dep \<and> (y * width dep + x) * 4 + 3 < length (data dep)
                \<and> data dep ! ((y * width dep + x) * 4 + 3) = 255 \<longrightarrow>
                convertDepthImageToData (autoAdjustDepthImage rt smooth orig dep) ! y ! x
                  = fl (fl (real (unat (data dep ! ((y * width dep + x) * 4))) / 255) * 100))
          \<and> (\<not> checkSizeMatch orig dep \<longrightarrow>
                data (autoAdjustDepthImage rt smooth orig dep) ! ((y * width orig + x) * 4)
                  = smooth dep (width orig) (height orig) ((y * width orig + x) * 4))))"
proof -
  let ?c = "autoAdjustDepthImage rt smooth orig dep"
  have dims: "width ?c = width orig" "height ?c = height orig"
    by (simp_all add: autoAdjust_dims)
  have rows: "length (convertDepthImageToData ?c) = height orig"
    by (simp add: convertDepthImageToData_map dims)
  have row: "length (convertDepthImageToData ?c ! y) = width orig" if "y < height orig" for y
    using that by (simp add: convertDepthImageToData_map dims)
  have entry: "convertDepthImageToData ?c ! y ! x
      = depth_of_gray (data ?c ! ((y * width orig + x) * 4))"
    if "y < height orig" "x < width orig" for y x
    using that by (simp add: convertDepthImageToData_map dims autoAdjust_getImageData)
  have val: "convertDepthImageToData ?c ! y ! x
      = fl (fl (real (unat (data ?c ! ((y * width orig + x) * 4))) / 255) * 100)
      \<and> 0 \<le> convertDepthImageToData ?c ! y ! x \<and> convertDepthImageToData ?c ! y ! x \<le> 100"
    if "y < height orig" "x < width orig" for y x
    unfolding entry [OF that] using depth_of_gray_bounds by (simp add: depth_of_gray_def)
  have same: "data ?c ! ((y * width orig + x) * 4)
      = canvas_byte rt (data dep) ((y * width dep + x) * 4)"
    if "y < height orig" "x < width orig" "checkSizeMatch orig dep" for y x
  proof -
    from that(3) have wh: "width dep = width orig" "height dep = height orig"
      by (simp_all add: checkSizeMatch_def)
    have "(y * width orig + x) * 4 < 4 * width orig * height orig"
      using that(2,1) by (rule red_index_less)
    then show ?thesis
      using that(3) by (simp add: autoAdjustDepthImage_def drawImage_def wh nth_paint)
  qed
  have opaque: "convertDepthImageToData ?c ! y ! x
      = fl (fl (real (unat (data dep ! ((y * width dep + x) * 4))) / 255) * 100)"
    if "y < height orig" "x < width orig" "checkSizeMatch orig dep"
      "(y * width dep + x) * 4 + 3 < length (data dep)"
      "data dep ! ((y * width dep + x) * 4 + 3) = 255" for y x
  proof -
    have "canvas_byte rt (data dep) ((y * width dep + x) * 4 + 0)
        = data dep ! ((y * width dep + x) * 4 + 0)"
      using that(4,5) by (rule canvas_byte_opaque) simp
    then have "data ?c ! ((y * width orig + x) * 4) = data dep ! ((y * width dep + x) * 4)"
      using same [OF that(1,2,3)] by simp
    then show ?thesis using val [OF that(1,2)] by simp
  qed
  have scaled: "data ?c ! ((y * width orig + x) * 4)
      = smooth dep (width orig) (height orig) ((y * width orig + x) * 4)"
    if "y < height orig" "x < width orig" "\<not> checkSizeMatch orig dep" for y x
  proof -
    have "(y * width orig + x) * 4 < 4 * width orig * height orig"
      using that(2,1) by (rule red_index_less)
    then show ?thesis
      using that(3) by (simp add: autoAdjustDepthImage_def resizeImage_def)
  qed
  show ?thesis
    using rows row val same opaque scaled by blast
qed

theorem depth_field_dimensions_and_values_witness:
  "\<not> checkSizeMatch \<lparr>width = 2, height = 1, data = [9, 8, 7, 255, 1, 2, 3, 255]\<rparr>
                     \<lparr>width = 1, height = 1, data = [255, 255, 255, 255]\<rparr>
   \<and> length (convertDepthImageToData
         (autoAdjustDepthImage (\<lambda>c a. c) (\<lambda>img tw th j. data img ! (j mod 4))
            \<lparr>width = 2, height = 1, data = [9, 8, 7, 255, 1, 2, 3, 255]\<rparr>
            \<lparr>width = 1, height = 1, data = [255, 255, 255, 255]\<rparr>)) = 1
   \<and> length (convertDepthImageToData
         (autoAdjustDepthImage (\<lambda>c a. c) (\<lambda>img tw th j. data img ! (j mod 4))
            \<lparr>width = 2, height = 1, data = [9, 8, 7, 255, 1, 2, 3, 255]\<rparr>
            \<lparr>width = 1, height = 1, data = [255, 255, 255, 255]\<rparr>) ! 0) = 2
   \<and> convertDepthImageToData
         (autoAdjustDepthImage (\<lambda>c a. c) (\<lambda>img tw th j. data img ! (j mod 4))
            \<lparr>width = 2, height = 1, data = [9, 8, 7, 255, 1, 2, 3, 255]\<rparr>
            \<lparr>width = 1, height = 1, data = [255, 255, 255, 255]\<rparr>) ! 0 ! 1 = 100
   \<and> checkSizeMatch \<lparr>width = 1, height = 1, data = [9, 8, 7, 255]\<rparr>
                    \<lparr>width = 1, height = 1, data = [200, 200, 200, 0]\<rparr>
   \<and> convertDepthImageToData
         (autoAdjustDepthImage (\<lambda>c a. c) (\<lambda>img tw th j. data img ! (j mod 4))
            \<lparr>width = 1, height = 1, data = [9, 8, 7, 255]\<rparr>
            \<lparr>width = 1, height = 1, data = [200, 200, 200, 0]\<rparr>) ! 0 ! 0 = 0"
proof -
  let ?rt = "\<lambda>(c::8 word) (a::8 word). c"
  let ?sm = "\<lambda>img (tw::nat) (th::nat) j. data img ! (j mod 4)"
  let ?o1 = "\<lparr>width = 2, height = 1, data = [9, 8, 7, 255, 1, 2, 3, 255 :: 8 word]\<rparr>"
  let ?d1 = "\<lparr>width = 1, height = 1, data = [255, 255, 255, 255 :: 8 word]\<rparr>"
  let ?o2 = "\<lparr>width = 1, height = 1, data = [9, 8, 7, 255 :: 8 word]\<rparr>"
  let ?d2 = "\<lparr>width = 1, height = 1, data = [200, 200, 200, 0 :: 8 word]\<rparr>"
  let ?c1 = "autoAdjustDepthImage ?rt ?sm ?o1 ?d1"
  let ?c2 = "autoAdjustDepthImage ?rt ?sm ?o2 ?d2"
  have differ: "\<not> checkSizeMatch ?o1 ?d1" and same: "checkSizeMatch ?o2 ?d2"
    by (simp_all add: checkSizeMatch_def)
  have y1: "(0::nat) < height ?o1" and x1: "(1::nat) < width ?o1"
    and y2: "(0::nat) < height ?o2" and x2: "(0::nat) < width ?o2"
    by simp_all
  from depth_field_dimensions_and_values [of ?rt ?sm ?o1 ?d1] y1
  have "length (convertDepthImageToData ?c1) = height ?o1"
    and "length (convertDepthImageToData ?c1 ! 0) = width ?o1"
    by blast+
  then have d: "length (convertDepthImageToData ?c1) = 1"
    "length (convertDepthImageToData ?c1 ! 0) = 2"
    by simp_all
  from depth_field_dimensions_and_values [of ?rt ?sm ?o1 ?d1] y1 x1 differ
  have "convertDepthImageToData ?c1 ! 0 ! 1
          = fl (fl (real (unat (data ?c1 ! ((0 * width ?o1 + 1) * 4))) / 255) * 100)"
    and "data ?c1 ! ((0 * width ?o1 + 1) * 4) = ?sm ?d1 (width ?o1) (height ?o1) ((0 * width ?o1 + 1) * 4)"
    by blast+
  then have "convertDepthImageToData ?c1 ! 0 ! 1 = fl (fl (real (unat (255 :: 8 word)) / 255) * 100)"
    by simp
  then have a: "convertDepthImageToData ?c1 ! 0 ! 1 = 100" by simp
  from depth_field_dimensions_and_values [of ?rt ?sm ?o2 ?d2] y2 x2 same
  have "convertDepthImageToData ?c2 ! 0 ! 0
          = fl (fl (real (unat (data ?c2 ! ((0 * width ?o2 + 0) * 4))) / 255) * 100)"
    and "data ?c2 ! ((0 * width ?o2 + 0) * 4) = canvas_byte ?rt (data ?d2) ((0 * width ?d2 + 0) * 4)"
    by blast+
  moreover have "canvas_byte ?rt (data ?d2) ((0 * width ?d2 + 0) * 4) = 0"
    by (simp add: canvas_byte_def)
  ultimately have "convertDepthImageToData ?c2 ! 0 ! 0 = fl (fl (real (unat (0 :: 8 word)) / 255) * 100)"
    by simp
  then have b: "convertDepthImageToData ?c2 ! 0 ! 0 = 0" by simp
  show ?thesis using differ same d a b by blast
qed

subsection \<open>Masking\<close>

lemma length_cut_pixel: "length (cut_pixel row mn mx w y x dat) = length dat"
  by (simp add: cut_pixel_def Let_def)

lemma nth_cut_pixel:
  "j < length dat \<Longrightarrow>
     cut_pixel (dd ! y) mn mx w y x dat ! j =
       (if j = (y * w + x) * 4 + 3 \<and> masked_at dd mn mx y x then 0 else dat ! j)"
  by (simp add: cut_pixel_def Let_def nth_list_update masked_at_def)

lemma zeroed_in_row_step:
  "x < w \<Longrightarrow> zeroed_in_row dd mn mx w y x j \<longleftrightarrow>
     (j = (y * w + x) * 4 + 3 \<and> masked_at dd mn mx y x) \<or> zeroed_in_row dd mn mx w y (Suc x) j"
proof -
  assume "x < w"
  then have "{x..<w} = insert x {Suc x..<w}" by auto
  then show ?thesis by (simp add: zeroed_in_row_def)
qed

lemma zeroed_in_row_done: "\<not> x < w \<Longrightarrow> \<not> zeroed_in_row dd mn mx w y x j"
  by (simp add: zeroed_in_row_def)

lemma zeroed_in_rows_step:
  "y < h \<Longrightarrow> zeroed_in_rows dd mn mx w h y j \<longleftrightarrow>
     zeroed_in_row dd mn mx w y 0 j \<or> zeroed_in_rows dd mn mx w h (Suc y) j"
proof -
  assume "y < h"
  then have "{y..<h} = insert y {Suc y..<h}" by auto
  then show ?thesis by (simp add: zeroed_in_rows_def)
qed

lemma zeroed_in_rows_done: "\<not> y < h \<Longrightarrow> \<not> zeroed_in_rows dd mn mx w h y j"
  by (simp add: zeroed_in_rows_def)

lemma cut_cols_spec:
  "y < length dd \<Longrightarrow>
     \<exists>dat'. cut_cols dd mn mx w y x dat = Inr dat' \<and> length dat' = length dat \<and>
       (\<forall>j<length dat. dat' ! j = (if zeroed_in_row dd mn mx w y x j then 0 else dat ! j))"
proof (induction dd mn mx w y x dat rule: cut_cols.induct)
  case (1 dd mn mx w y x dat)
  show ?case
  proof (cases "x < w")
    case False
    then have "cut_cols dd mn mx w y x dat = Inr dat"
      by (subst cut_cols.simps) simp
    with False show ?thesis by (simp add: zeroed_in_row_done)
  next
    case True
    define dat1 where "dat1 = cut_pixel (dd ! y) mn mx w y x dat"
    have len1: "length dat1 = length dat" by (simp add: dat1_def length_cut_pixel)
    have step: "cut_cols dd mn mx w y x dat = cut_cols dd mn mx w y (Suc x) dat1"
      using True "1.prems" by (subst cut_cols.simps) (simp add: dat1_def)
    from "1.IH" [OF True "1.prems" "1.prems"] obtain dat' where
      res: "cut_cols dd mn mx w y (Suc x) dat1 = Inr dat'" and
      len: "length dat' = length dat1" and
      nth: "\<forall>j<length dat1. dat' ! j =
              (if zeroed_in_row dd mn mx w y (Suc x) j then 0 else dat1 ! j)"
      unfolding dat1_def by blast
    have "dat' ! j = (if zeroed_in_row dd mn mx w y x j then 0 else dat ! j)"
      if "j < length dat" for j
    proof -
      from that have "j < length dat1" by (simp add: len1)
      with nth have A: "dat' ! j = (if zeroed_in_row dd mn mx w y (Suc x) j then 0 else dat1 ! j)"
        by blast
      have B: "dat1 ! j = (if j = (y * w + x) * 4 + 3 \<and> masked_at dd mn mx y x
                           then 0 else dat ! j)"
        unfolding dat1_def using that by (rule nth_cut_pixel)
      show ?thesis unfolding A B zeroed_in_row_step [OF True] by auto
    qed
    with res len len1 step show ?thesis by simp
  qed
qed

lemma cut_rows_spec:
  "h \<le> length dd \<Longrightarrow>
     \<exists>dat'. cut_rows dd mn mx w h y dat = Inr dat' \<and> length dat' = length dat \<and>
       (\<forall>j<length dat. dat' ! j = (if zeroed_in_rows dd mn mx w h y j then 0 else dat ! j))"
proof (induction dd mn mx w h y dat rule: cut_rows.induct)
  case (1 dd mn mx w h y dat)
  show ?case
  proof (cases "y < h")
    case False
    then have "cut_rows dd mn mx w h y dat = Inr dat"
      by (subst cut_rows.simps) simp
    with False show ?thesis by (simp add: zeroed_in_rows_done)
  next
    case True
    with "1.prems" have "y < length dd" by simp
    then obtain dat1 where
      res1: "cut_cols dd mn mx w y 0 dat = Inr dat1" and
      len1: "length dat1 = length dat" and
      nth1: "\<forall>j<length dat. dat1 ! j = (if zeroed_in_row dd mn mx w y 0 j then 0 else dat ! j)"
      using cut_cols_spec [of y dd mn mx w 0 dat] by blast
    have step: "cut_rows dd mn mx w h y dat = cut_rows dd mn mx w h (Suc y) dat1"
      using True res1 by (subst cut_rows.simps) simp
    from "1.IH" [OF True res1 "1.prems"] obtain dat' where
      res: "cut_rows dd mn mx w h (Suc y) dat1 = Inr dat'" and
      len: "length dat' = length dat1" and
      nth: "\<forall>j<length dat1. dat' ! j =
              (if zeroed_in_rows dd mn mx w h (Suc y) j then 0 else dat1 ! j)"
      by blast
    have "dat' ! j = (if zeroed_in_rows dd mn mx w h y j then 0 else dat ! j)"
      if "j < length dat" for j
    proof -
      from that nth len1 have A: "dat' ! j =
          (if zeroed_in_rows dd mn mx w h (Suc y) j then 0 else dat1 ! j)" by simp
      from that nth1 have B: "dat1 ! j =
          (if zeroed_in_row dd mn mx w y 0 j then 0 else dat ! j)" by blast
      show ?thesis unfolding A B zeroed_in_rows_step [OF True] by auto
    qed
    with res len len1 step show ?thesis by simp
  qed
qed






text \<open>The buffer after the two loops, before it is put back on the canvas.\<close>

lemma cutByDepthRange_spec:
  assumes "height orig \<le> length dd"
  shows "\<exists>dat'. cutByDepthRange rt orig dd mn mx
                  = Inr (paint rt (width orig) (height orig) dat')
      \<and> length dat' = 4 * width orig * height orig
      \<and> (\<forall>j<4 * width orig * height orig. dat' ! j =
           (if zeroed_in_rows dd mn mx (width orig) (height orig) 0 j then 0
            else canvas_byte rt (data orig) j))"
proof -
  let ?cv = "drawImage rt orig"
  have cv: "width ?cv = width orig" "height ?cv = height orig"
    "getImageData ?cv = data ?cv" "length (data ?cv) = 4 * width orig * height orig"
    by (simp_all add: drawImage_def getImageData_paint)
  obtain dat' where
    "cut_rows dd mn mx (width orig) (height orig) 0 (data ?cv) = Inr dat'"
    "length dat' = length (data ?cv)"
    "\<forall>j<length (data ?cv). dat' ! j =
       (if zeroed_in_rows dd mn mx (width orig) (height orig) 0 j then 0
        else data ?cv ! j)"
    using cut_rows_spec [OF assms, of mn mx "width orig" 0 "data ?cv"] by blast
  moreover have "data ?cv ! j = canvas_byte rt (data orig) j"
    if "j < 4 * width orig * height orig" for j
    using that by (simp add: drawImage_def nth_paint)
  ultimately show ?thesis
    by (intro exI [of _ dat']) (simp add: cutByDepthRange_def Let_def cv putImageData_def)
qed




lemma cut_white_pixel:
  "cutByDepthRange (\<lambda>c a. c) \<lparr>width = 1, height = 1, data = [9, 8, 7, 255]\<rparr> [[100]] 0 100
     = Inr \<lparr>width = 1, height = 1, data = [0, 0, 0, 0]\<rparr>"
  by code_simp

lemma white_depth_field:
  "convertDepthImageToData
     (autoAdjustDepthImage (\<lambda>c a. c) (\<lambda>img tw th j. 0)
        \<lparr>width = 1, height = 1, data = [9, 8, 7, 255]\<rparr>
        \<lparr>width = 1, height = 1, data = [255, 255, 255, 255]\<rparr>) = [[100]]"
proof -
  let ?dep = "\<lparr>width = 1, height = 1, data = [255, 255, 255, 255 :: 8 word]\<rparr>"
  let ?cv = "paint (\<lambda>c a. c) 1 1 [255, 255, 255, 255]"
  have c: "autoAdjustDepthImage (\<lambda>c a. c) (\<lambda>img tw th j. 0)
             \<lparr>width = 1, height = 1, data = [9, 8, 7, 255]\<rparr> ?dep = ?cv"
    by (simp add: autoAdjustDepthImage_def checkSizeMatch_def drawImage_def)
  have "data ?cv ! 0 = canvas_byte (\<lambda>c a. c) [255, 255, 255, 255] 0"
    by (rule nth_paint) simp
  also have "\<dots> = 255" by (simp add: canvas_byte_def)
  finally have r: "getImageData ?cv ! 0 = 255" by (simp only: getImageData_paint)
  have "convertDepthImageToData ?cv = [[depth_of_gray (getImageData ?cv ! 0)]]"
    by (simp add: convertDepthImageToData_map)
  then show ?thesis unfolding c r by (simp only: depth_of_gray_255)
qed

text \<open>
  C2 states the mask rule with one exception: in the final range a depth of exactly \<open>100\<close>
  is accepted. The code has the rule and misses the exception. A one-pixel colour image
  \<open>(9, 8, 7, 255)\<close> with a white depth pixel (red byte \<open>255\<close>, depth \<open>100\<close>), cut by the final
  range \<open>(0, 100)\<close> of the one-layer partition, comes out with alpha \<open>0\<close>, and so reads
  transparent black.
\<close>

theorem final_range_masks_depth_100:
  "cutByDepthRange (\<lambda>c a. c) \<lparr>width = 1, height = 1, data = [9, 8, 7, 255]\<rparr>
     (convertDepthImageToData
        (autoAdjustDepthImage (\<lambda>c a. c) (\<lambda>img tw th j. 0)
           \<lparr>width = 1, height = 1, data = [9, 8, 7, 255]\<rparr>
           \<lparr>width = 1, height = 1, data = [255, 255, 255, 255]\<rparr>))
     (range_min (last (generateDepthRanges 1 0)))
     (range_max (last (generateDepthRanges 1 0)))
   = Inr \<lparr>width = 1, height = 1, data = [0, 0, 0, 0]\<rparr>"
proof -
  have "last (generateDepthRanges 1 0) = \<lparr>range_min = 0, range_max = 100\<rparr>"
    by (simp add: generateDepthRanges_1)
  then have mn: "range_min (last (generateDepthRanges 1 0)) = 0"
    and mx: "range_max (last (generateDepthRanges 1 0)) = 100"
    by simp_all
  show ?thesis unfolding white_depth_field mn mx by (rule cut_white_pixel)
qed

subsection \<open>The job driver\<close>

lemma cut_returns:
  "height orig \<le> length dd \<Longrightarrow> \<exists>out. cutByDepthRange rt orig dd mn mx = Inr out"
  using cutByDepthRange_spec [of orig dd rt mn mx] by blast

lemma cut_in_process:
  "\<exists>out. cutByDepthRange rt orig
           (convertDepthImageToData (autoAdjustDepthImage rt' smooth orig dep)) mn mx = Inr out"
  by (rule cut_returns) (simp add: length_convertDepthImageToData autoAdjust_dims)

lemma layers_loop_border:
  assumes "0 < borderWidth c" "i < length (depthRanges c)"
    "cutByDepthRange (unpremul env) orig dd (range_min (depthRanges c ! i))
       (range_max (depthRanges c ! i)) = Inr out"
  shows "layers_loop env orig dd i c = (Inl TypeError, c)"
  using assms by (subst layers_loop.simps) (simp add: Let_def addBorder_def)

text \<open>
  C9 states that for every border width above \<open>0\<close> a dilation pass runs on each layer and
  processing completes with the full result set. In the code the dilation is a call of a
  method that does not exist: whenever the border width is positive, both images load and
  there is at least one range, \<^verbatim>\<open>process\<close> fails on the first layer with the wrapped
  TypeError and produces no layer.
\<close>

theorem border_width_fails:
  "0 < borderWidth c \<Longrightarrow> depthRanges c \<noteq> [] \<Longrightarrow>
   loadOriginal env = Inr orig \<Longrightarrow> loadDepth env = Inr dep \<Longrightarrow>
     process env c = (Inl (DepthCutFailed TypeError), c\<lparr>results := []\<rparr>)"
proof -
  assume bw: "0 < borderWidth c" and rs: "depthRanges c \<noteq> []"
    and lo: "loadOriginal env = Inr orig" and ld: "loadDepth env = Inr dep"
  let ?dd = "convertDepthImageToData
               (autoAdjustDepthImage (unpremul env) (smoothing env) orig dep)"
  let ?c = "c\<lparr>results := []\<rparr>"
  obtain out where "cutByDepthRange (unpremul env) orig ?dd (range_min (depthRanges ?c ! 0))
      (range_max (depthRanges ?c ! 0)) = Inr out"
    using cut_in_process by blast
  moreover have "0 < borderWidth ?c" "0 < length (depthRanges ?c)" using bw rs by simp_all
  ultimately have "layers_loop env orig ?dd 0 ?c = (Inl TypeError, ?c)"
    by (intro layers_loop_border)
  then show ?thesis by (simp add: process_def lo ld Let_def)
qed

theorem border_width_fails_witness:
  "(0::int) < borderWidth (BrowserDepthCutter 1 0 4)
   \<and> depthRanges (BrowserDepthCutter 1 0 4) \<noteq> []
   \<and> process \<lparr>loadOriginal = Inr \<lparr>width = 1, height = 1, data = [9, 8, 7, 255]\<rparr>,
               loadDepth = Inr \<lparr>width = 1, height = 1, data = [51, 51, 51, 255]\<rparr>,
               unpremul = (\<lambda>c a. c),
               smoothing = (\<lambda>img tw th j. 0),
               toBlob = (\<lambda>i cv. Some 1)\<rparr>
        (BrowserDepthCutter 1 0 4)
      = (Inl (DepthCutFailed TypeError), BrowserDepthCutter 1 0 4)"
proof -
  let ?env = "\<lparr>loadOriginal = Inr \<lparr>width = 1, height = 1, data = [9, 8, 7, 255]\<rparr>,
               loadDepth = Inr \<lparr>width = 1, height = 1, data = [51, 51, 51, 255]\<rparr>,
               unpremul = (\<lambda>c a. c),
               smoothing = (\<lambda>img tw th j. 0),
               toBlob = (\<lambda>i cv. Some 1)\<rparr>"
  have bw: "(0::int) < borderWidth (BrowserDepthCutter 1 0 4)"
    by (simp add: BrowserDepthCutter_def)
  have rs: "depthRanges (BrowserDepthCutter 1 0 4) \<noteq> []"
    by (simp add: BrowserDepthCutter_def generateDepthRanges_map)
  have "process ?env (BrowserDepthCutter 1 0 4)
      = (Inl (DepthCutFailed TypeError), (BrowserDepthCutter 1 0 4)\<lparr>results := []\<rparr>)"
    by (rule border_width_fails [OF bw rs]) simp_all
  then show ?thesis using bw rs by (simp add: BrowserDepthCutter_def)
qed

text \<open>
  C8, as the code has it. A layer count \<open>n \<le> 0\<close> is not rejected. The partitioner returns the
  empty list of ranges and the constructor stores it; \<^verbatim>\<open>process\<close> then loads both images
  (a failed load is the error it reports), extracts the depth field, runs its loop zero
  times and returns the empty result set without any error.
\<close>

theorem nonpositive_layer_count_accepted:
  "n \<le> 0 \<Longrightarrow>
     generateDepthRanges n ov = []
   \<and> depthRanges (BrowserDepthCutter n ov bw) = []
   \<and> (loadOriginal env = Inr orig \<and> loadDepth env = Inr dep \<longrightarrow>
        process env (BrowserDepthCutter n ov bw) = (Inr [], BrowserDepthCutter n ov bw))
   \<and> (loadOriginal env = Inl e \<longrightarrow>
        fst (process env (BrowserDepthCutter n ov bw)) = Inl (DepthCutFailed e))
   \<and> (loadOriginal env = Inr orig \<and> loadDepth env = Inl e \<longrightarrow>
        fst (process env (BrowserDepthCutter n ov bw)) = Inl (DepthCutFailed e))"
proof -
  assume n: "n \<le> 0"
  then have g: "generateDepthRanges n ov = []" by (simp add: generateDepthRanges_map)
  let ?c = "BrowserDepthCutter n ov bw"
  have c: "?c\<lparr>results := []\<rparr> = ?c" "depthRanges ?c = []"
    by (simp_all add: BrowserDepthCutter_def g)
  have loop: "layers_loop env orig dd 0 ?c = (Inr [], ?c)" for dd orig
    by (subst layers_loop.simps) (simp add: BrowserDepthCutter_def g)
  show ?thesis
    using g c(2) by (simp add: process_def Let_def c(1) loop)
qed

theorem nonpositive_layer_count_accepted_witness:
  "(-3::int) \<le> 0
   \<and> generateDepthRanges (-3) 1 = []
   \<and> process \<lparr>loadOriginal = Inr \<lparr>width = 1, height = 1, data = [9, 8, 7, 255]\<rparr>,
               loadDepth = Inr \<lparr>width = 1, height = 1, data = [51, 51, 51, 255]\<rparr>,
               unpremul = (\<lambda>c a. c),
               smoothing = (\<lambda>img tw th j. 0),
               toBlob = (\<lambda>i cv. Some 1)\<rparr>
        (BrowserDepthCutter (-3) 1 0) = (Inr [], BrowserDepthCutter (-3) 1 0)"
  using nonpositive_layer_count_accepted [of "-3" 1 0
      "\<lparr>loadOriginal = Inr \<lparr>width = 1, height = 1, data = [9, 8, 7, 255]\<rparr>,
        loadDepth = Inr \<lparr>width = 1, height = 1, data = [51, 51, 51, 255]\<rparr>,
        unpremul = (\<lambda>c a. c),
        smoothing = (\<lambda>img tw th j. 0), toBlob = (\<lambda>i cv. Some 1)\<rparr>"
      "\<lparr>width = 1, height = 1, data = [9, 8, 7, 255]\<rparr>"
      "\<lparr>width = 1, height = 1, data = [51, 51, 51, 255]\<rparr>"]
  by simp

text \<open>With layer count \<open>0\<close> and two images that load, processing returns normally.\<close>

theorem nonpositive_layer_count_counterexample:
  "process \<lparr>loadOriginal = Inr \<lparr>width = 1, height = 1, data = [9, 8, 7, 255]\<rparr>,
             loadDepth = Inr \<lparr>width = 1, height = 1, data = [0, 0, 0, 255]\<rparr>,
             unpremul = (\<lambda>c a. c),
             smoothing = (\<lambda>img tw th j. 0),
             toBlob = (\<lambda>i cv. Some 1)\<rparr>
      (BrowserDepthCutter 0 1 0)
    = (Inr [], BrowserDepthCutter 0 1 0)"
  by code_simp

lemma layers_loop_blob_failure:
  assumes "height orig \<le> length dd"
    "\<forall>j<k. \<forall>cv. toBlob env j cv \<noteq> None" "\<forall>cv. toBlob env k cv = None"
  shows "k - i = m \<Longrightarrow> i \<le> k \<Longrightarrow> borderWidth c \<le> 0 \<Longrightarrow> k < length (depthRanges c) \<Longrightarrow>
     \<exists>c'. layers_loop env orig dd i c = (Inl BlobError, c')
        \<and> map layer (results c') = map layer (results c) @ map Suc [i..<k]"
proof (induction m arbitrary: i c)
  case 0
  then have ik: "i = k" by simp
  obtain out where "cutByDepthRange (unpremul env) orig dd (range_min (depthRanges c ! k))
      (range_max (depthRanges c ! k)) = Inr out"
    using cut_returns [OF assms(1)] by blast
  then have "layers_loop env orig dd k c = (Inl BlobError, c)"
    using "0.prems" assms(3) by (subst layers_loop.simps) (simp add: Let_def)
  then show ?case by (simp add: ik)
next
  case (Suc m)
  then have ik: "i < k" by simp
  then have il: "i < length (depthRanges c)" using Suc.prems by simp
  obtain out where out: "cutByDepthRange (unpremul env) orig dd (range_min (depthRanges c ! i))
      (range_max (depthRanges c ! i)) = Inr out"
    using cut_returns [OF assms(1)] by blast
  obtain sz where sz: "toBlob env i out = Some sz"
    using assms(2) ik by blast
  define c1 where "c1 = c\<lparr>results := results c @
      [\<lparr>layer = i + 1, depthRange = depthRanges c ! i, canvas = out, blob_size = sz\<rparr>]\<rparr>"
  have step: "layers_loop env orig dd i c = layers_loop env orig dd (Suc i) c1"
    using il out sz Suc.prems(3) by (subst layers_loop.simps) (simp add: Let_def c1_def)
  have "borderWidth c1 \<le> 0" "k < length (depthRanges c1)"
    using Suc.prems by (simp_all add: c1_def)
  moreover have "k - Suc i = m" "Suc i \<le> k" using ik Suc.prems by simp_all
  ultimately obtain c' where
    "layers_loop env orig dd (Suc i) c1 = (Inl BlobError, c')"
    "map layer (results c') = map layer (results c1) @ map Suc [Suc i..<k]"
    using Suc.IH [of "Suc i" c1] by blast
  moreover have "map layer (results c1) @ map Suc [Suc i..<k]
      = map layer (results c) @ map Suc [i..<k]"
    using ik by (simp add: c1_def upt_conv_Cons)
  ultimately show ?case using step by simp
qed

text \<open>
  C7, as the code has it. When both images load, no border is requested and the encoding
  of the layer with index \<open>k\<close> fails after the layers before it were encoded, \<^verbatim>\<open>process\<close>
  throws the one wrapped error, and the result collection of the cutter afterwards holds
  exactly the \<open>k\<close> layers completed before the failure, numbered \<open>1\<close> to \<open>k\<close> in order.
  \<^verbatim>\<open>getAllResults\<close> returns them, and \<^verbatim>\<open>getStats\<close> is \<^verbatim>\<open>null\<close> only when the failure was on
  the first layer.
\<close>

theorem failure_keeps_completed_layers:
  "loadOriginal env = Inr orig \<Longrightarrow> loadDepth env = Inr dep \<Longrightarrow> borderWidth c \<le> 0 \<Longrightarrow>
   k < length (depthRanges c) \<Longrightarrow>
   \<forall>j<k. \<forall>cv. toBlob env j cv \<noteq> None \<Longrightarrow> \<forall>cv. toBlob env k cv = None \<Longrightarrow>
     fst (process env c) = Inl (DepthCutFailed BlobError)
   \<and> map layer (getAllResults (snd (process env c))) = map Suc [0..<k]
   \<and> length (getAllResults (snd (process env c))) = k
   \<and> (getStats (snd (process env c)) = None \<longleftrightarrow> k = 0)"
proof -
  assume lo: "loadOriginal env = Inr orig" and ld: "loadDepth env = Inr dep"
    and bw: "borderWidth c \<le> 0" and k: "k < length (depthRanges c)"
    and ok: "\<forall>j<k. \<forall>cv. toBlob env j cv \<noteq> None" and bad: "\<forall>cv. toBlob env k cv = None"
  let ?dd = "convertDepthImageToData
               (autoAdjustDepthImage (unpremul env) (smoothing env) orig dep)"
  let ?c = "c\<lparr>results := []\<rparr>"
  have rows: "height orig \<le> length ?dd"
    by (simp add: length_convertDepthImageToData autoAdjust_dims)
  have "k - 0 = k" "0 \<le> k" "borderWidth ?c \<le> 0" "k < length (depthRanges ?c)"
    using bw k by simp_all
  then obtain c' where
    loop: "layers_loop env orig ?dd 0 ?c = (Inl BlobError, c')" and
    layers: "map layer (results c') = map layer (results ?c) @ map Suc [0..<k]"
    using layers_loop_blob_failure [OF rows ok bad, of 0 k ?c] by blast
  have p: "process env c = (Inl (DepthCutFailed BlobError), c')"
    by (simp add: process_def lo ld Let_def loop)
  from layers have m: "map layer (results c') = map Suc [0..<k]" by simp
  then have "length (map layer (results c')) = length (map Suc [0..<k])" by (rule arg_cong)
  then have len: "length (results c') = k" by simp
  show ?thesis by (simp add: p getAllResults_def getStats_def m len Let_def)
qed

theorem failure_keeps_completed_layers_witness:
  "borderWidth (BrowserDepthCutter 2 0 0) \<le> 0
   \<and> (1::nat) < length (depthRanges (BrowserDepthCutter 2 0 0))
   \<and> fst (process \<lparr>loadOriginal = Inr \<lparr>width = 1, height = 1, data = [9, 8, 7, 255]\<rparr>,
                  loadDepth = Inr \<lparr>width = 1, height = 1, data = [0, 0, 0, 255]\<rparr>,
                  unpremul = (\<lambda>c a. c),
                  smoothing = (\<lambda>img tw th j. 0),
                  toBlob = (\<lambda>i cv. if i = 0 then Some 1 else None)\<rparr>
          (BrowserDepthCutter 2 0 0)) = Inl (DepthCutFailed BlobError)
   \<and> length (getAllResults
        (snd (process \<lparr>loadOriginal = Inr \<lparr>width = 1, height = 1, data = [9, 8, 7, 255]\<rparr>,
                  loadDepth = Inr \<lparr>width = 1, height = 1, data = [0, 0, 0, 255]\<rparr>,
                  unpremul = (\<lambda>c a. c),
                  smoothing = (\<lambda>img tw th j. 0),
                  toBlob = (\<lambda>i cv. if i = 0 then Some 1 else None)\<rparr>
          (BrowserDepthCutter 2 0 0)))) = 1"
proof -
  let ?env = "\<lparr>loadOriginal = Inr \<lparr>width = 1, height = 1, data = [9, 8, 7, 255]\<rparr>,
               loadDepth = Inr \<lparr>width = 1, height = 1, data = [0, 0, 0, 255]\<rparr>,
               unpremul = (\<lambda>c a. c),
               smoothing = (\<lambda>img tw th j. 0),
               toBlob = (\<lambda>i cv. if i = 0 then Some (1::nat) else None)\<rparr>"
  have lo: "loadOriginal ?env = Inr \<lparr>width = 1, height = 1, data = [9, 8, 7, 255]\<rparr>"
    and ld: "loadDepth ?env = Inr \<lparr>width = 1, height = 1, data = [0, 0, 0, 255]\<rparr>"
    by simp_all
  have bw: "borderWidth (BrowserDepthCutter 2 0 0) \<le> 0"
    by (simp add: BrowserDepthCutter_def)
  have k: "(1::nat) < length (depthRanges (BrowserDepthCutter 2 0 0))"
    by (simp add: BrowserDepthCutter_def length_generateDepthRanges)
  have ok: "\<forall>j<1. \<forall>cv. toBlob ?env j cv \<noteq> None" by simp
  have bad: "\<forall>cv. toBlob ?env 1 cv = None" by simp
  show ?thesis
    using failure_keeps_completed_layers [OF lo ld bw k ok bad] bw k by blast
qed

lemma generateDepthRanges_2:
  "generateDepthRanges 2 0 = [\<lparr>range_min = 0, range_max = 50\<rparr>, \<lparr>range_min = 50, range_max = 100\<rparr>]"
proof -
  have f: "fl 50 = 50" "fl 500 = 500"
    using fl_of_int [of 50] fl_of_int [of 500] by simp_all
  have r: "round1 50 = 50" by (simp add: round1_def js_round_def f)
  have "[0..<nat 2] = [0, 1]" by (simp add: upt_conv_Cons)
  then show ?thesis
    by (simp add: generateDepthRanges_map range_of_bin_def Let_def f r)
qed

text \<open>
  Two layers, the encoding of the second failing: the job fails and its result collection
  is not empty, it holds the first layer.
\<close>

theorem failure_keeps_completed_layers_counterexample:
  "fst (process \<lparr>loadOriginal = Inr \<lparr>width = 1, height = 1, data = [9, 8, 7, 255]\<rparr>,
                  loadDepth = Inr \<lparr>width = 1, height = 1, data = [0, 0, 0, 255]\<rparr>,
                  unpremul = (\<lambda>c a. c),
                  smoothing = (\<lambda>img tw th j. 0),
                  toBlob = (\<lambda>i cv. if i = 0 then Some 1 else None)\<rparr>
          (BrowserDepthCutter 2 0 0)) = Inl (DepthCutFailed BlobError)
   \<and> getAllResults
        (snd (process \<lparr>loadOriginal = Inr \<lparr>width = 1, height = 1, data = [9, 8, 7, 255]\<rparr>,
                  loadDepth = Inr \<lparr>width = 1, height = 1, data = [0, 0, 0, 255]\<rparr>,
                  unpremul = (\<lambda>c a. c),
                  smoothing = (\<lambda>img tw th j. 0),
                  toBlob = (\<lambda>i cv. if i = 0 then Some 1 else None)\<rparr>
          (BrowserDepthCutter 2 0 0)))
      = [\<lparr>layer = 1, depthRange = \<lparr>range_min = 0, range_max = 50\<rparr>,
          canvas = \<lparr>width = 1, height = 1, data = [9, 8, 7, 255]\<rparr>, blob_size = 1\<rparr>]"
proof -
  let ?env = "\<lparr>loadOriginal = Inr \<lparr>width = 1, height = 1, data = [9, 8, 7, 255]\<rparr>,
               loadDepth = Inr \<lparr>width = 1, height = 1, data = [0, 0, 0, 255]\<rparr>,
               unpremul = (\<lambda>c a. c),
               smoothing = (\<lambda>img tw th j. 0),
               toBlob = (\<lambda>i cv. if i = 0 then Some (1::nat) else None)\<rparr>"
  let ?c = "\<lparr>layerCount = 2, depthOverlap = 0, borderWidth = 0,
             depthRanges = [\<lparr>range_min = 0, range_max = 50\<rparr>, \<lparr>range_min = 50, range_max = 100\<rparr>],
             results = []\<rparr>"
  have c: "BrowserDepthCutter 2 0 0 = ?c"
    by (simp add: BrowserDepthCutter_def generateDepthRanges_2)
  have "process ?env ?c
      = (Inl (DepthCutFailed BlobError),
         ?c\<lparr>results := [\<lparr>layer = 1, depthRange = \<lparr>range_min = 0, range_max = 50\<rparr>,
                    canvas = \<lparr>width = 1, height = 1, data = [9, 8, 7, 255]\<rparr>, blob_size = 1\<rparr>]\<rparr>)"
    by code_simp
  then show ?thesis unfolding c by (simp add: getAllResults_def)
qed

end
